theory Spec2Isabelle
  imports Main "HOL-Library.Char_ord" "HOL-Library.List_Lexorder"
    "HOL-Library.Product_Lexorder" "HOL-Library.AList"
begin

section \<open>Shared data: errors, characters, files\<close>

text \<open>
  Exceptions of the two scripts as values. Both \<open>ValueError\<close>s of
  \<^verbatim>\<open>problem2.py\<close> are kept apart by what raises them: \<open>InvalidAppDirName\<close> is
  the \<^verbatim>\<open>raise ValueError(f"Invalid application dir name: ...")\<close> of
  \<^verbatim>\<open>scan_app_times\<close>, \<open>TimeDataError\<close> is the \<open>ValueError\<close> of
  \<^verbatim>\<open>datetime.strptime\<close> and \<^verbatim>\<open>datetime.replace\<close>, \<open>InvalidLiteral\<close> the one of
  \<^verbatim>\<open>int\<close>. \<open>OSError\<close> is what \<^verbatim>\<open>Path.open\<close> raises on a file it cannot open.

  A \<open>string\<close> is a list of characters, each a code point below 256. The
  character classes of \<^verbatim>\<open>re\<close> on a \<^verbatim>\<open>str\<close> pattern follow Unicode, and
  are given here for every such code point: \<^verbatim>\<open>\d\<close> is a decimal digit, of
  which there are the ten ASCII ones; \<^verbatim>\<open>\w\<close> is an alphanumeric character or
  the underscore, which beyond ASCII takes in the letters, superscript digits and
  fractions of Latin-1; \<^verbatim>\<open>\s\<close> is white space, which takes in the separators
  28 to 31, NEL (133) and the no-break space (160).
\<close>

datatype error =
    FileNotFoundError
  | OSError
  | IndexError
  | KeyError
  | ZeroDivisionError
  | InvalidAppDirName string
  | TimeDataError
  | InvalidLiteral string

definition is_digit :: "char \<Rightarrow> bool" where
  "is_digit c = (let n = (of_char c :: nat) in 48 \<le> n \<and> n \<le> 57)"

definition is_word :: "char \<Rightarrow> bool" where
  "is_word c = (let n = (of_char c :: nat) in
     (48 \<le> n \<and> n \<le> 57) \<or> (65 \<le> n \<and> n \<le> 90) \<or> (97 \<le> n \<and> n \<le> 122) \<or> n = 95 \<or>
     n = 170 \<or> n = 178 \<or> n = 179 \<or> n = 181 \<or> n = 185 \<or> n = 186 \<or>
     (188 \<le> n \<and> n \<le> 190) \<or> (192 \<le> n \<and> n \<le> 214) \<or> (216 \<le> n \<and> n \<le> 246) \<or>
     (248 \<le> n \<and> n \<le> 255))"

definition is_space :: "char \<Rightarrow> bool" where
  "is_space c = (let n = (of_char c :: nat) in
     (9 \<le> n \<and> n \<le> 13) \<or> (28 \<le> n \<and> n \<le> 32) \<or> n = 133 \<or> n = 160)"

definition newline :: char where
  "newline = CHR 0x0A"

text \<open>
  A file as \<^verbatim>\<open>Path.open("r", encoding="utf-8", errors="ignore")\<close> sees it:
  either it opens and iterating it gives its lines (each with its line end), or
  \<^verbatim>\<open>open\<close> raises.
\<close>

datatype logfile = Readable "string list" | Unreadable

text \<open>An entry of \<^verbatim>\<open>data/raw\<close>: a plain file, or a directory with its named children.\<close>

datatype node = File logfile | Dir "(string \<times> logfile) list"

record fs =
  raw :: "(string \<times> node) list"
  archive :: "(string \<times> node) list option"

definition startswith :: "string \<Rightarrow> string \<Rightarrow> bool" where
  "startswith s p = (take (length p) s = p)"

definition endswith :: "string \<Rightarrow> string \<Rightarrow> bool" where
  "endswith s p = (length p \<le> length s \<and> drop (length s - length p) s = p)"

text \<open>\<^verbatim>\<open>RAW_DIR.glob("application_*")\<close>: the entries whose name starts with the prefix.\<close>

definition glob_app :: "(string \<times> node) list \<Rightarrow> (string \<times> node) list" where
  "glob_app entries = filter (\<lambda>(name, n). startswith name ''application_'') entries"

text \<open>
  \<^verbatim>\<open>ensure_extracted\<close>: nothing to do when an application entry exists; otherwise
  the archive must exist, and its members are extracted into \<^verbatim>\<open>data/raw\<close>.
\<close>

definition ensure_extracted :: "fs \<Rightarrow> error + fs" where
  "ensure_extracted f =
     (if glob_app (raw f) \<noteq> [] then Inr f
      else (case archive f of
              None \<Rightarrow> Inl FileNotFoundError
            | Some members \<Rightarrow> Inr (f\<lparr>raw := raw f @ members\<rparr>)))"

section \<open>problem1.py: level counts and reservoir sample\<close>

datatype level = INFO | WARN | ERROR | DEBUG

definition level_tokens :: "(string \<times> level) list" where
  "level_tokens = [(''INFO'', INFO), (''WARN'', WARN), (''ERROR'', ERROR), (''DEBUG'', DEBUG)]"

fun word_char :: "char option \<Rightarrow> bool" where
  "word_char None = False"
| "word_char (Some c) = is_word c"

fun first_char :: "string \<Rightarrow> char option" where
  "first_char [] = None"
| "first_char (c # cs) = Some c"

text \<open>\<^verbatim>\<open>\b\<close> between the character before the position and the one after it.\<close>

definition word_boundary :: "char option \<Rightarrow> char option \<Rightarrow> bool" where
  "word_boundary p n = (word_char p \<noteq> word_char n)"

text \<open>
  One alternative of \<^verbatim>\<open>\b(INFO|WARN|ERROR|DEBUG)\b\<close> tried at a position whose
  leading \<^verbatim>\<open>\b\<close> holds: the token is read and the trailing \<^verbatim>\<open>\b\<close> is
  checked.
\<close>

definition token_here :: "string \<Rightarrow> string \<Rightarrow> bool" where
  "token_here tok s =
     (take (length tok) s = tok \<and>
      word_boundary (Some (last tok)) (first_char (drop (length tok) s)))"

text \<open>
  \<^verbatim>\<open>LEVEL_RE\<close> tried at one position: \<open>p\<close> is the character before it, \<open>s\<close>
  the text from it. The alternatives are tried in the order they are written.
\<close>

definition LEVEL_RE_at :: "char option \<Rightarrow> string \<Rightarrow> level option" where
  "LEVEL_RE_at p s =
     (if word_boundary p (first_char s)
      then map_option snd (find (\<lambda>(tok, l). token_here tok s) level_tokens)
      else None)"

text \<open>\<^verbatim>\<open>LEVEL_RE.search\<close>: the positions are tried from left to right.\<close>

fun LEVEL_RE_from :: "char option \<Rightarrow> string \<Rightarrow> level option" where
  "LEVEL_RE_from p [] = LEVEL_RE_at p []"
| "LEVEL_RE_from p (c # cs) =
     (case LEVEL_RE_at p (c # cs) of
        Some l \<Rightarrow> Some l
      | None \<Rightarrow> LEVEL_RE_from (Some c) cs)"

definition LEVEL_RE_search :: "string \<Rightarrow> level option" where
  "LEVEL_RE_search line = LEVEL_RE_from None line"

text \<open>\<^verbatim>\<open>line.rstrip("\n")\<close>\<close>

definition rstrip_nl :: "string \<Rightarrow> string" where
  "rstrip_nl line = rev (dropWhile (\<lambda>c. c = newline) (rev line))"

text \<open>
  \<^verbatim>\<open>RAW_DIR.glob("application_*/*.log")\<close>: the children named \<^verbatim>\<open>*.log\<close> of the
  directories named \<^verbatim>\<open>application_*\<close>, each with its path.
\<close>

definition glob_logs :: "(string \<times> node) list \<Rightarrow> (string \<times> logfile) list" where
  "glob_logs entries =
     concat (map (\<lambda>(name, n).
        (case n of
           File f \<Rightarrow> []
         | Dir children \<Rightarrow>
             map (\<lambda>(child, f). (name @ ''/'' @ child, f))
               (filter (\<lambda>(child, f). endswith child ''.log'') children)))
       (glob_app entries))"

text \<open>
  \<^verbatim>\<open>iter_log_lines\<close> is a generator: the result is what it yields, and the
  exception that ends it, if any. A file that does not open raises there; nothing
  catches it.
\<close>

fun iter_log_lines :: "(string \<times> logfile) list \<Rightarrow> (string \<times> string) list \<times> error option" where
  "iter_log_lines [] = ([], None)"
| "iter_log_lines ((log_path, Unreadable) # rest) = ([], Some OSError)"
| "iter_log_lines ((log_path, Readable ls) # rest) =
     (case iter_log_lines rest of
        (ys, e) \<Rightarrow> (map (\<lambda>line. (log_path, rstrip_nl line)) ls @ ys, e))"

text \<open>Python's \<^verbatim>\<open>xs[i] = v\<close>: a negative index counts from the end.\<close>

definition setitem :: "'a list \<Rightarrow> int \<Rightarrow> 'a \<Rightarrow> error + 'a list" where
  "setitem xs i v =
     (if 0 \<le> i \<and> i < int (length xs) then Inr (xs[nat i := v])
      else if i < 0 \<and> - int (length xs) \<le> i then Inr (xs[nat (int (length xs) + i) := v])
      else Inl IndexError)"

text \<open>The sample capacity \<^verbatim>\<open>k = 10\<close> of \<^verbatim>\<open>main\<close>.\<close>

definition K :: int where
  "K = 10"

text \<open>
  The state of the pass of \<^verbatim>\<open>main\<close>. The generator of \<^verbatim>\<open>random\<close> is the
  component \<open>rng\<close>; \<^verbatim>\<open>random.randint\<close> is the parameter \<open>randint\<close> of the loop,
  which returns the number drawn and the generator's next state.
\<close>

record 'g agg =
  total_lines :: int
  level_lines :: int
  counts :: "level \<Rightarrow> int"
  sample :: "(string \<times> string \<times> level) list"
  n_kept :: int
  rng :: 'g

definition agg_init :: "'g \<Rightarrow> 'g agg" where
  "agg_init g = \<lparr>total_lines = 0, level_lines = 0, counts = (\<lambda>l. 0), sample = [],
     n_kept = 0, rng = g\<rparr>"

text \<open>The body of \<^verbatim>\<open>for path, line in iter_log_lines()\<close>.\<close>

definition main_step ::
  "('g \<Rightarrow> int \<Rightarrow> int \<Rightarrow> int \<times> 'g) \<Rightarrow> 'g agg \<Rightarrow> string \<times> string \<Rightarrow> error + 'g agg" where
  "main_step randint s pl =
     (case pl of (path, line) \<Rightarrow>
        let s1 = s\<lparr>total_lines := total_lines s + 1\<rparr> in
        (case LEVEL_RE_search line of
           None \<Rightarrow> Inr s1
         | Some lvl \<Rightarrow>
             let s2 = s1\<lparr>counts := (counts s1)(lvl := counts s1 lvl + 1),
                        level_lines := level_lines s1 + 1,
                        n_kept := n_kept s1 + 1\<rparr> in
             if int (length (sample s2)) < K
             then Inr (s2\<lparr>sample := sample s2 @ [(path, line, lvl)]\<rparr>)
             else (case randint (rng s2) 1 (n_kept s2) of
                     (j, g') \<Rightarrow>
                       if j \<le> K
                       then (case setitem (sample s2) (j - 1) (path, line, lvl) of
                               Inl e \<Rightarrow> Inl e
                             | Inr smp \<Rightarrow> Inr (s2\<lparr>sample := smp, rng := g'\<rparr>))
                       else Inr (s2\<lparr>rng := g'\<rparr>))))"

fun main_loop ::
  "('g \<Rightarrow> int \<Rightarrow> int \<Rightarrow> int \<times> 'g) \<Rightarrow> 'g agg \<Rightarrow> (string \<times> string) list \<Rightarrow> error + 'g agg" where
  "main_loop randint s [] = Inr s"
| "main_loop randint s (pl # rest) =
     (case main_step randint s pl of
        Inl e \<Rightarrow> Inl e
      | Inr s' \<Rightarrow> main_loop randint s' rest)"

text \<open>
  \<^verbatim>\<open>reservoir_sample(iterable, k, predicate)\<close>, the stand-alone sampler; the
  state of its loop is the sample, \<open>n\<close> and the generator.
\<close>

definition reservoir_step ::
  "('g \<Rightarrow> int \<Rightarrow> int \<Rightarrow> int \<times> 'g) \<Rightarrow> int \<Rightarrow> (string \<Rightarrow> bool) \<Rightarrow>
   (string \<times> string) list \<times> int \<times> 'g \<Rightarrow> string \<times> string \<Rightarrow>
   error + (string \<times> string) list \<times> int \<times> 'g" where
  "reservoir_step randint k predicate st pl =
     (case st of (smp, n, g) \<Rightarrow>
        (case pl of (path, line) \<Rightarrow>
           if \<not> predicate line then Inr (smp, n, g)
           else if int (length smp) < k then Inr (smp @ [(path, line)], n + 1, g)
           else (case randint g 1 (n + 1) of
                   (j, g') \<Rightarrow>
                     if j \<le> k
                     then (case setitem smp (j - 1) (path, line) of
                             Inl e \<Rightarrow> Inl e
                           | Inr smp' \<Rightarrow> Inr (smp', n + 1, g'))
                     else Inr (smp, n + 1, g'))))"

fun reservoir_loop ::
  "('g \<Rightarrow> int \<Rightarrow> int \<Rightarrow> int \<times> 'g) \<Rightarrow> int \<Rightarrow> (string \<Rightarrow> bool) \<Rightarrow>
   (string \<times> string) list \<times> int \<times> 'g \<Rightarrow> (string \<times> string) list \<Rightarrow>
   error + (string \<times> string) list \<times> int \<times> 'g" where
  "reservoir_loop randint k predicate st [] = Inr st"
| "reservoir_loop randint k predicate st (pl # rest) =
     (case reservoir_step randint k predicate st pl of
        Inl e \<Rightarrow> Inl e
      | Inr st' \<Rightarrow> reservoir_loop randint k predicate st' rest)"

definition reservoir_sample ::
  "('g \<Rightarrow> int \<Rightarrow> int \<Rightarrow> int \<times> 'g) \<Rightarrow> 'g \<Rightarrow> (string \<times> string) list \<Rightarrow> int \<Rightarrow>
   (string \<Rightarrow> bool) \<Rightarrow> error + (string \<times> string) list" where
  "reservoir_sample randint g iterable k predicate =
     (case reservoir_loop randint k predicate ([], 0, g) iterable of
        Inl e \<Rightarrow> Inl e
      | Inr (smp, n, g') \<Rightarrow> Inr smp)"

text \<open>
  The summary of \<^verbatim>\<open>main\<close>. The float arithmetic of
  \<^verbatim>\<open>f"{(x/denom)*100:0.2f}%"\<close> is not part of the repository: true division of
  two integers, multiplication by an integer and the two-decimal format are the
  parameters \<open>fdiv\<close>, \<open>fmul\<close> and \<open>format_2f\<close>. What is modelled is when the division
  is reached: Python's \<^verbatim>\<open>/\<close> raises on a zero divisor.
\<close>

record 'f float_ops =
  fdiv :: "int \<Rightarrow> int \<Rightarrow> 'f"
  fmul :: "'f \<Rightarrow> int \<Rightarrow> 'f"
  format_2f :: "'f \<Rightarrow> string"

definition truediv :: "'f float_ops \<Rightarrow> int \<Rightarrow> int \<Rightarrow> error + 'f" where
  "truediv fl x d = (if d = 0 then Inl ZeroDivisionError else Inr (fdiv fl x d))"

definition pct :: "'f float_ops \<Rightarrow> int \<Rightarrow> int \<Rightarrow> error + string" where
  "pct fl x denom =
     (if denom = 0 then Inr ''0.00%''
      else (case truediv fl x denom of
              Inl e \<Rightarrow> Inl e
            | Inr q \<Rightarrow> Inr (format_2f fl (fmul fl q 100) @ ''%'')))"

definition digit_char :: "nat \<Rightarrow> char" where
  "digit_char d = ''0123456789'' ! d"

fun str_nat :: "nat \<Rightarrow> string" where
  "str_nat n = (if n < 10 then [digit_char n] else str_nat (n div 10) @ [digit_char (n mod 10)])"

declare str_nat.simps [simp del]

definition str_int :: "int \<Rightarrow> string" where
  "str_int i = (if i < 0 then CHR ''-'' # str_nat (nat (- i)) else str_nat (nat i))"

definition ljust :: "nat \<Rightarrow> string \<Rightarrow> string" where
  "ljust w s = s @ replicate (w - length s) CHR '' ''"

definition rjust :: "nat \<Rightarrow> string \<Rightarrow> string" where
  "rjust w s = replicate (w - length s) CHR '' '' @ s"

fun level_name :: "level \<Rightarrow> string" where
  "level_name INFO = ''INFO''"
| "level_name WARN = ''WARN''"
| "level_name ERROR = ''ERROR''"
| "level_name DEBUG = ''DEBUG''"

definition level_order :: "level list" where
  "level_order = [INFO, WARN, ERROR, DEBUG]"

text \<open>\<^verbatim>\<open>f"  {lvl:<5}: {c:>10} ({pct(c, level_lines)})\n"\<close>\<close>

definition distribution_line :: "'f float_ops \<Rightarrow> 'g agg \<Rightarrow> level \<Rightarrow> error + string" where
  "distribution_line fl s lvl =
     (let c = counts s lvl in
      (case pct fl c (level_lines s) of
         Inl e \<Rightarrow> Inl e
       | Inr p \<Rightarrow>
           Inr (''  '' @ ljust 5 (level_name lvl) @ '': '' @ rjust 10 (str_int c) @
                '' ('' @ p @ '')'' @ [newline])))"

fun distribution_lines :: "'f float_ops \<Rightarrow> 'g agg \<Rightarrow> level list \<Rightarrow> error + string list" where
  "distribution_lines fl s [] = Inr []"
| "distribution_lines fl s (lvl # rest) =
     (case distribution_line fl s lvl of
        Inl e \<Rightarrow> Inl e
      | Inr ln \<Rightarrow>
          (case distribution_lines fl s rest of
             Inl e \<Rightarrow> Inl e
           | Inr lns \<Rightarrow> Inr (ln # lns)))"

definition summary_txt :: "'f float_ops \<Rightarrow> 'g agg \<Rightarrow> error + string list" where
  "summary_txt fl s =
     (case distribution_lines fl s level_order of
        Inl e \<Rightarrow> Inl e
      | Inr lns \<Rightarrow>
          Inr ([''Total log lines processed: '' @ str_int (total_lines s) @ [newline],
                ''Total lines with log levels: '' @ str_int (level_lines s) @ [newline],
                ''Unique log levels found: '' @
                  str_int (int (length (filter (\<lambda>l. counts s l > 0) level_order))) @
                  [newline, newline],
                ''Log level distribution:'' @ [newline]] @ lns))"

text \<open>
  \<^verbatim>\<open>main\<close> of \<^verbatim>\<open>problem1.py\<close>: extraction, the pass over the generator, the
  summary. An exception of the loop body comes before one of the generator, which
  is raised only when the loop asks for the line after the last one yielded.
\<close>

definition main_problem1 ::
  "('g \<Rightarrow> int \<Rightarrow> int \<Rightarrow> int \<times> 'g) \<Rightarrow> 'f float_ops \<Rightarrow> 'g \<Rightarrow> fs \<Rightarrow> error + 'g agg \<times> string list" where
  "main_problem1 randint fl g f =
     (case ensure_extracted f of
        Inl e \<Rightarrow> Inl e
      | Inr f' \<Rightarrow>
          (case iter_log_lines (glob_logs (raw f')) of
             (ls, err) \<Rightarrow>
               (case main_loop randint (agg_init g) ls of
                  Inl e \<Rightarrow> Inl e
                | Inr s \<Rightarrow>
                    (case err of
                       Some e \<Rightarrow> Inl e
                     | None \<Rightarrow>
                         (case summary_txt fl s of
                            Inl e \<Rightarrow> Inl e
                          | Inr txt \<Rightarrow> Inr (s, txt))))))"

section \<open>problem2.py: application and cluster time ranges\<close>

text \<open>
  A \<^verbatim>\<open>datetime\<close> without time zone: year, month, day, hour, minute, second,
  compared field by field in this order.
\<close>

type_synonym datetime = "int \<times> int \<times> int \<times> int \<times> int \<times> int"

definition year :: "datetime \<Rightarrow> int" where
  "year dt = fst dt"

definition is_leap :: "int \<Rightarrow> bool" where
  "is_leap y = (y mod 4 = 0 \<and> (y mod 100 \<noteq> 0 \<or> y mod 400 = 0))"

definition days_in_month :: "int \<Rightarrow> int \<Rightarrow> int" where
  "days_in_month y m =
     (if m = 2 then (if is_leap y then 29 else 28)
      else if m = 4 \<or> m = 6 \<or> m = 9 \<or> m = 11 then 30 else 31)"

definition digit_val :: "char \<Rightarrow> int" where
  "digit_val c = int (of_char c) - 48"

text \<open>Three two-digit fields with a separator: \<^verbatim>\<open>\d{2}/\d{2}/\d{2}\<close> or \<^verbatim>\<open>\d{2}:\d{2}:\d{2}\<close>.\<close>

fun sep_fields :: "char \<Rightarrow> string \<Rightarrow> (int \<times> int \<times> int) option" where
  "sep_fields sep [a, b, s1, c, d, s2, e, f] =
     (if is_digit a \<and> is_digit b \<and> s1 = sep \<and> is_digit c \<and> is_digit d \<and> s2 = sep \<and>
         is_digit e \<and> is_digit f
      then Some (10 * digit_val a + digit_val b, 10 * digit_val c + digit_val d,
                 10 * digit_val e + digit_val f)
      else None)"
| "sep_fields sep s = None"

text \<open>
  \<^verbatim>\<open>TS_RE.match(line)\<close> for \<^verbatim>\<open>^(\d{2}/\d{2}/\d{2}\s+\d{2}:\d{2}:\d{2})\<close>; the
  result is \<^verbatim>\<open>group(1)\<close>. A digit must follow the white space, so the greedy
  \<^verbatim>\<open>\s+\<close> takes all of it.
\<close>

definition TS_RE_match :: "string \<Rightarrow> string option" where
  "TS_RE_match line =
     (let date = take 8 line;
          ws = takeWhile is_space (drop 8 line);
          time = take 8 (dropWhile is_space (drop 8 line))
      in if sep_fields CHR ''/'' date \<noteq> None \<and> ws \<noteq> [] \<and> sep_fields CHR '':'' time \<noteq> None
         then Some (date @ ws @ time) else None)"

text \<open>
  \<^verbatim>\<open>datetime.strptime(ts, "%y/%m/%d %H:%M:%S")\<close> on the strings the script gives
  it, which are those \<^verbatim>\<open>TS_RE\<close> captures (two digits in every field; the
  library also reads one-digit fields, which never reach it here). The first field
  is the year: 00 to 68 is read as 2000 to 2068 and 69 to 99 as 1969 to 1999.
  Anything that is not a date and a time of day is a \<open>ValueError\<close>.
\<close>

definition strptime :: "string \<Rightarrow> error + datetime" where
  "strptime ts =
     (let date = take 8 ts;
          ws = takeWhile is_space (drop 8 ts);
          time = dropWhile is_space (drop 8 ts)
      in (case (sep_fields CHR ''/'' date, sep_fields CHR '':'' time) of
            (Some (yy, m, d), Some (H, M, S)) \<Rightarrow>
              (let y = (if yy \<le> 68 then yy + 2000 else yy + 1900)
               in if ws \<noteq> [] \<and> 1 \<le> m \<and> m \<le> 12 \<and> 1 \<le> d \<and> d \<le> days_in_month y m \<and>
                     H \<le> 23 \<and> M \<le> 59 \<and> S \<le> 59
                  then Inr (y, m, d, H, M, S) else Inl TimeDataError)
          | _ \<Rightarrow> Inl TimeDataError))"

text \<open>\<^verbatim>\<open>dt.replace(year=y)\<close>: the new date must exist.\<close>

definition replace_year :: "datetime \<Rightarrow> int \<Rightarrow> error + datetime" where
  "replace_year dt y =
     (case dt of (y0, m, d, rest) \<Rightarrow>
        if 1 \<le> y \<and> y \<le> 9999 \<and> d \<le> days_in_month y m then Inr (y, m, d, rest)
        else Inl TimeDataError)"

definition parse_ts :: "string \<Rightarrow> error + datetime" where
  "parse_ts ts =
     (case strptime ts of
        Inl e \<Rightarrow> Inl e
      | Inr dt \<Rightarrow> if year dt < 2000 then replace_year dt (year dt + 100) else Inr dt)"

text \<open>
  \<^verbatim>\<open>APP_DIR_RE\<close>, \<^verbatim>\<open>application_(\d{13})_(\d+)$\<close>, tried at the start of \<open>s\<close>. The
  greedy \<^verbatim>\<open>\d+\<close> must take every digit, since \<^verbatim>\<open>$\<close> does not hold before a
  digit; \<^verbatim>\<open>$\<close> holds at the end of the string and before a newline that ends it.
\<close>

definition APP_DIR_RE_at :: "string \<Rightarrow> (string \<times> string) option" where
  "APP_DIR_RE_at s =
     (let cid = take 13 (drop 12 s);
          num = takeWhile is_digit (drop 26 s);
          rest = dropWhile is_digit (drop 26 s)
      in if take 12 s = ''application_'' \<and> length cid = 13 \<and> list_all is_digit cid \<and>
            take 1 (drop 25 s) = ''_'' \<and> num \<noteq> [] \<and> (rest = [] \<or> rest = [newline])
         then Some (cid, num) else None)"

text \<open>\<^verbatim>\<open>APP_DIR_RE.search\<close>: the first position, from the left, where it matches.\<close>

fun APP_DIR_RE_search :: "string \<Rightarrow> (string \<times> string) option" where
  "APP_DIR_RE_search [] = APP_DIR_RE_at []"
| "APP_DIR_RE_search (c # cs) =
     (case APP_DIR_RE_at (c # cs) of
        Some r \<Rightarrow> Some r
      | None \<Rightarrow> APP_DIR_RE_search cs)"

text \<open>The body of \<^verbatim>\<open>for line in f\<close> in \<^verbatim>\<open>scan_app_times\<close>.\<close>

definition scan_line ::
  "datetime option \<times> datetime option \<Rightarrow> string \<Rightarrow> error + datetime option \<times> datetime option" where
  "scan_line se line =
     (case se of (start_dt, end_dt) \<Rightarrow>
        (case TS_RE_match line of
           None \<Rightarrow> Inr se
         | Some ts \<Rightarrow>
             (case parse_ts ts of
                Inl e \<Rightarrow> Inl e
              | Inr dt \<Rightarrow>
                  Inr ((case start_dt of
                          None \<Rightarrow> Some dt
                        | Some s \<Rightarrow> if dt < s then Some dt else Some s),
                       (case end_dt of
                          None \<Rightarrow> Some dt
                        | Some e \<Rightarrow> if dt > e then Some dt else Some e)))))"

fun scan_lines ::
  "datetime option \<times> datetime option \<Rightarrow> string list \<Rightarrow> error + datetime option \<times> datetime option" where
  "scan_lines se [] = Inr se"
| "scan_lines se (line # rest) =
     (case scan_line se line of
        Inl e \<Rightarrow> Inl e
      | Inr se' \<Rightarrow> scan_lines se' rest)"

text \<open>\<^verbatim>\<open>for log_path in app_dir.glob("*.log")\<close>: each file is opened, then read.\<close>

fun scan_files ::
  "datetime option \<times> datetime option \<Rightarrow> (string \<times> logfile) list \<Rightarrow>
   error + datetime option \<times> datetime option" where
  "scan_files se [] = Inr se"
| "scan_files se ((log_path, Unreadable) # rest) = Inl OSError"
| "scan_files se ((log_path, Readable ls) # rest) =
     (case scan_lines se ls of
        Inl e \<Rightarrow> Inl e
      | Inr se' \<Rightarrow> scan_files se' rest)"

definition scan_app_times ::
  "string \<Rightarrow> (string \<times> logfile) list \<Rightarrow>
   error + string \<times> string \<times> string \<times> datetime option \<times> datetime option" where
  "scan_app_times name children =
     (case APP_DIR_RE_search name of
        None \<Rightarrow> Inl (InvalidAppDirName name)
      | Some (cluster_id, app_number) \<Rightarrow>
          (case scan_files (None, None)
                  (filter (\<lambda>(child, f). endswith child ''.log'') children) of
             Inl e \<Rightarrow> Inl e
           | Inr (start_dt, end_dt) \<Rightarrow>
               Inr (cluster_id, ''application_'' @ cluster_id @ ''_'' @ app_number,
                    app_number, start_dt, end_dt)))"

text \<open>
  \<^verbatim>\<open>iter_app_dirs\<close>: \<^verbatim>\<open>sorted(RAW_DIR.glob("application_*"))\<close> orders the paths,
  all in one directory, by their names as strings; the directories among them are
  yielded.
\<close>

definition iter_app_dirs :: "(string \<times> node) list \<Rightarrow> (string \<times> (string \<times> logfile) list) list" where
  "iter_app_dirs entries =
     concat (map (\<lambda>(name, n). (case n of File f \<Rightarrow> [] | Dir children \<Rightarrow> [(name, children)]))
       (sort_key fst (glob_app entries)))"

text \<open>
  The accumulators of \<^verbatim>\<open>main\<close>. A row holds its instants before
  \<^verbatim>\<open>format_dt\<close> and its count before \<^verbatim>\<open>str\<close>. \<^verbatim>\<open>cluster_counts\<close> is a
  \<^verbatim>\<open>Counter\<close>, whose keys are later listed in insertion order: an association
  list.
\<close>

record scan_state =
  timeline_rows :: "(string \<times> string \<times> string \<times> datetime \<times> datetime) list"
  cluster_counts :: "(string \<times> int) list"
  cluster_first :: "string \<rightharpoonup> datetime"
  cluster_last :: "string \<rightharpoonup> datetime"

definition scan_init :: scan_state where
  "scan_init = \<lparr>timeline_rows = [], cluster_counts = [], cluster_first = Map.empty,
     cluster_last = Map.empty\<rparr>"

definition counter_get :: "(string \<times> int) list \<Rightarrow> string \<Rightarrow> int" where
  "counter_get c key = (case map_of c key of None \<Rightarrow> 0 | Some v \<Rightarrow> v)"

definition counter_incr :: "(string \<times> int) list \<Rightarrow> string \<Rightarrow> (string \<times> int) list" where
  "counter_incr c key = AList.update key (counter_get c key + 1) c"

text \<open>The body of \<^verbatim>\<open>for app_dir in iter_app_dirs()\<close>.\<close>

definition app_step :: "scan_state \<Rightarrow> string \<times> (string \<times> logfile) list \<Rightarrow> error + scan_state" where
  "app_step s app_dir =
     (case app_dir of (name, children) \<Rightarrow>
        (case scan_app_times name children of
           Inl e \<Rightarrow> Inl e
         | Inr (cluster_id, app_id, app_number, start_opt, end_opt) \<Rightarrow>
             (case (start_opt, end_opt) of
                (Some start_dt, Some end_dt) \<Rightarrow>
                  Inr (s\<lparr>timeline_rows :=
                           timeline_rows s @ [(cluster_id, app_id, app_number, start_dt, end_dt)],
                         cluster_counts := counter_incr (cluster_counts s) cluster_id,
                         cluster_first :=
                           (case cluster_first s cluster_id of
                              None \<Rightarrow> (cluster_first s)(cluster_id \<mapsto> start_dt)
                            | Some f \<Rightarrow>
                                if start_dt < f then (cluster_first s)(cluster_id \<mapsto> start_dt)
                                else cluster_first s),
                         cluster_last :=
                           (case cluster_last s cluster_id of
                              None \<Rightarrow> (cluster_last s)(cluster_id \<mapsto> end_dt)
                            | Some l \<Rightarrow>
                                if end_dt > l then (cluster_last s)(cluster_id \<mapsto> end_dt)
                                else cluster_last s)\<rparr>)
              | _ \<Rightarrow> Inr s)))"

fun app_loop :: "scan_state \<Rightarrow> (string \<times> (string \<times> logfile) list) list \<Rightarrow> error + scan_state" where
  "app_loop s [] = Inr s"
| "app_loop s (app_dir # rest) =
     (case app_step s app_dir of
        Inl e \<Rightarrow> Inl e
      | Inr s' \<Rightarrow> app_loop s' rest)"

text \<open>
  \<^verbatim>\<open>int(x)\<close> on a string of decimal digits, the only strings it is given here
  (cluster ids); \<^verbatim>\<open>sorted(keys, key=lambda x: int(x))\<close> is a stable sort and
  raises when a key has no integer value.
\<close>

definition int_digits :: "string \<Rightarrow> int" where
  "int_digits s = foldl (\<lambda>a c. 10 * a + digit_val c) 0 s"

definition is_decimal :: "string \<Rightarrow> bool" where
  "is_decimal s = (s \<noteq> [] \<and> list_all is_digit s)"

definition sorted_by_int :: "string list \<Rightarrow> error + string list" where
  "sorted_by_int keys =
     (case find (\<lambda>key. \<not> is_decimal key) keys of
        Some key \<Rightarrow> Inl (InvalidLiteral key)
      | None \<Rightarrow> Inr (sort_key int_digits keys))"

text \<open>The rows of the cluster summary, one for each key in the order given.\<close>

fun cluster_summary_rows ::
  "scan_state \<Rightarrow> string list \<Rightarrow> error + (string \<times> int \<times> datetime \<times> datetime) list" where
  "cluster_summary_rows s [] = Inr []"
| "cluster_summary_rows s (cid # rest) =
     (case cluster_first s cid of
        None \<Rightarrow> Inl KeyError
      | Some first_dt \<Rightarrow>
          (case cluster_last s cid of
             None \<Rightarrow> Inl KeyError
           | Some last_dt \<Rightarrow>
               (case cluster_summary_rows s rest of
                  Inl e \<Rightarrow> Inl e
                | Inr rows \<Rightarrow>
                    Inr ((cid, counter_get (cluster_counts s) cid, first_dt, last_dt) # rows))))"

text \<open>
  \<^verbatim>\<open>main\<close> of \<^verbatim>\<open>problem2.py\<close> up to its two tables: the timeline rows and the
  cluster summary rows.
\<close>

definition main_problem2 ::
  "fs \<Rightarrow> error + (string \<times> string \<times> string \<times> datetime \<times> datetime) list \<times>
        (string \<times> int \<times> datetime \<times> datetime) list" where
  "main_problem2 f =
     (case ensure_extracted f of
        Inl e \<Rightarrow> Inl e
      | Inr f' \<Rightarrow>
          (case app_loop scan_init (iter_app_dirs (raw f')) of
             Inl e \<Rightarrow> Inl e
           | Inr s \<Rightarrow>
               (case sorted_by_int (map fst (cluster_counts s)) of
                  Inl e \<Rightarrow> Inl e
                | Inr cids \<Rightarrow>
                    (case cluster_summary_rows s cids of
                       Inl e \<Rightarrow> Inl e
                     | Inr rows \<Rightarrow> Inr (timeline_rows s, rows)))))"


section \<open>Notions used to state the properties\<close>

text \<open>\<^verbatim>\<open>has_level\<close> of \<^verbatim>\<open>main\<close>: \<^verbatim>\<open>bool(LEVEL_RE.search(s))\<close>.\<close>

definition has_level :: "string \<Rightarrow> bool" where
  "has_level s = (LEVEL_RE_search s \<noteq> None)"

text \<open>The number of lines of a stream in which a level is detected, and with a given level.\<close>

definition level_count :: "(string \<times> string) list \<Rightarrow> int" where
  "level_count ls = int (length (filter (\<lambda>(path, line). has_level line) ls))"

definition count_of :: "level \<Rightarrow> (string \<times> string) list \<Rightarrow> int" where
  "count_of lvl ls = int (length (filter (\<lambda>(path, line). LEVEL_RE_search line = Some lvl) ls))"

text \<open>What \<^verbatim>\<open>random.randint(a, b)\<close> promises: a number from \<open>a\<close> to \<open>b\<close>.\<close>

definition randint_ok :: "('g \<Rightarrow> int \<Rightarrow> int \<Rightarrow> int \<times> 'g) \<Rightarrow> bool" where
  "randint_ok randint = (\<forall>g a b. a \<le> b \<longrightarrow> a \<le> fst (randint g a b) \<and> fst (randint g a b) \<le> b)"

text \<open>A generator to run the loop with: it walks through the range.\<close>

definition demo_randint :: "nat \<Rightarrow> int \<Rightarrow> int \<Rightarrow> int \<times> nat" where
  "demo_randint g a b = (a + int g mod (b - a + 1), Suc g)"

text \<open>
  Algorithm R as the specification words it: the \<open>N\<close>th qualifying record \<open>r\<close> is
  appended while \<open>N \<le> k\<close>; later, with the number \<open>J\<close> drawn, it overwrites slot
  \<open>J - 1\<close> if \<open>J \<le> k\<close> and is discarded otherwise.
\<close>

definition algorithm_R :: "int \<Rightarrow> int \<Rightarrow> int \<Rightarrow> 'a \<Rightarrow> 'a list \<Rightarrow> 'a list" where
  "algorithm_R k N J r smp =
     (if N \<le> k then smp @ [r] else if J \<le> k then smp[nat (J - 1) := r] else smp)"

text \<open>The state of the pass after the lines \<open>ls\<close>.\<close>

definition agg_inv :: "'g agg \<Rightarrow> (string \<times> string) list \<Rightarrow> bool" where
  "agg_inv s ls =
     (total_lines s = int (length ls) \<and> level_lines s = level_count ls \<and>
      n_kept s = level_count ls \<and> int (length (sample s)) = min K (level_count ls) \<and>
      (\<forall>lvl. counts s lvl = count_of lvl ls))"

text \<open>The record of \<^verbatim>\<open>reservoir_sample\<close> for a record of \<^verbatim>\<open>main\<close>, and its loop state.\<close>

definition drop_level :: "string \<times> string \<times> level \<Rightarrow> string \<times> string" where
  "drop_level r = (case r of (path, line, lvl) \<Rightarrow> (path, line))"

definition sampler_state :: "'g agg \<Rightarrow> (string \<times> string) list \<times> int \<times> 'g" where
  "sampler_state s = (map drop_level (sample s), n_kept s, rng s)"

text \<open>
  A token stands alone at position \<open>i\<close> of a line: it is there, and neither the
  character before it nor the one after it is a word character.
\<close>

definition standalone_at :: "string \<Rightarrow> nat \<Rightarrow> string \<Rightarrow> bool" where
  "standalone_at line i tok =
     (i + length tok \<le> length line \<and> take (length tok) (drop i line) = tok \<and>
      (i = 0 \<or> \<not> is_word (line ! (i - 1))) \<and>
      (i + length tok = length line \<or> \<not> is_word (line ! (i + length tok))))"

text \<open>\<^verbatim>\<open>LEVEL_RE\<close> tried at position \<open>i\<close> of \<open>s\<close>, which \<open>p\<close> precedes.\<close>

definition at_pos :: "char option \<Rightarrow> string \<Rightarrow> nat \<Rightarrow> level option" where
  "at_pos p s i = LEVEL_RE_at (if i = 0 then p else Some (s ! (i - 1))) (drop i s)"

text \<open>
  Operations to run the summary with: a quotient is kept as its two integers and
  printed with its first two decimals.
\<close>

definition demo_float :: "(int \<times> int) float_ops" where
  "demo_float = \<lparr>fdiv = (\<lambda>x d. (x, d)), fmul = (\<lambda>q k. (fst q * k, snd q)),
     format_2f = (\<lambda>q. str_int (fst q div snd q) @ ''.'' @
                     rjust 2 (str_int (fst q * 100 div snd q mod 100)))\<rparr>"



text \<open>The suffixes of a list, the longest first.\<close>

fun tails :: "'a list \<Rightarrow> 'a list list" where
  "tails [] = [[]]"
| "tails (x # xs) = (x # xs) # tails xs"

text \<open>
  The identifier shape of the specification: \<^verbatim>\<open>application_\<close>, thirteen digits,
  an underscore, and one digit or more, to the end. A name ends in the shape when
  one of its suffixes has it.
\<close>

definition app_id_shape :: "string \<Rightarrow> bool" where
  "app_id_shape s =
     (take 12 s = ''application_'' \<and> length (take 13 (drop 12 s)) = 13 \<and>
      list_all is_digit (take 13 (drop 12 s)) \<and> take 1 (drop 25 s) = ''_'' \<and>
      drop 26 s \<noteq> [] \<and> list_all is_digit (drop 26 s))"

definition ends_in_app_id :: "string \<Rightarrow> bool" where
  "ends_in_app_id name = list_ex app_id_shape (tails name)"

text \<open>A string without the one newline that ends it, if one does.\<close>

definition chomp :: "string \<Rightarrow> string" where
  "chomp s = (if s \<noteq> [] \<and> last s = newline then butlast s else s)"

text \<open>A name whose last character is a newline.\<close>

definition ends_with_newline :: "string \<Rightarrow> bool" where
  "ends_with_newline name = (name \<noteq> [] \<and> last name = newline)"

text \<open>A file that opens, and what the walk yields for a file: its lines when it opens.\<close>

fun is_readable :: "logfile \<Rightarrow> bool" where
  "is_readable (Readable ls) = True"
| "is_readable Unreadable = False"

fun lines_of :: "string \<times> logfile \<Rightarrow> (string \<times> string) list" where
  "lines_of (log_path, Readable ls) = map (\<lambda>line. (log_path, rstrip_nl line)) ls"
| "lines_of (log_path, Unreadable) = []"

section \<open>Notions used to state the properties of the tables\<close>

text \<open>A time range that is absent, or whose start is not after its end.\<close>

fun range_ok :: "datetime option \<times> datetime option \<Rightarrow> bool" where
  "range_ok (None, None) = True"
| "range_ok (Some a, Some b) = (a \<le> b)"
| "range_ok (None, Some b) = False"
| "range_ok (Some a, None) = False"

text \<open>
  Every cluster that has a count has a count of at least one, and a first and a
  last instant with the first not after the last.
\<close>

definition scan_inv :: "scan_state \<Rightarrow> bool" where
  "scan_inv s =
     (\<forall>cid\<in>fst ` set (cluster_counts s).
        1 \<le> counter_get (cluster_counts s) cid \<and>
        (\<exists>f l. cluster_first s cid = Some f \<and> cluster_last s cid = Some l \<and> f \<le> l))"

text \<open>
  A corpus to run \<^verbatim>\<open>main\<close> on: two applications of one cluster, numbered 9
  and 10.
\<close>

definition demo_corpus :: fs where
  "demo_corpus =
     \<lparr>raw = [(''application_1111111111111_9'',
               Dir [(''c.log'', Readable [''17/03/29 10:04:41 INFO a'', ''17/03/29 10:05:00 INFO b''])]),
             (''application_1111111111111_10'',
               Dir [(''c.log'', Readable [''17/03/30 08:00:00 INFO c''])])],
      archive = None\<rparr>"

text \<open>The numeric key of a timeline row: cluster id and application number.\<close>

fun timeline_key :: "string \<times> string \<times> string \<times> datetime \<times> datetime \<Rightarrow> int \<times> int" where
  "timeline_key (cluster_id, app_id, app_number, start_dt, end_dt) =
     (int_digits cluster_id, int_digits app_number)"

text \<open>The timeline row an application directory gives, if it gives one.\<close>

definition timeline_row ::
  "string \<times> (string \<times> logfile) list \<Rightarrow> (string \<times> string \<times> string \<times> datetime \<times> datetime) option" where
  "timeline_row app_dir =
     (case app_dir of (name, children) \<Rightarrow>
        (case scan_app_times name children of
           Inr (cluster_id, app_id, app_number, Some start_dt, Some end_dt) \<Rightarrow>
             Some (cluster_id, app_id, app_number, start_dt, end_dt)
         | _ \<Rightarrow> None))"

text \<open>
  A directory name that is the identifier and nothing else, with an application
  number of \<open>w\<close> digits; and the numeric key read off such a name.
\<close>

definition plain_app_name :: "nat \<Rightarrow> string \<Rightarrow> bool" where
  "plain_app_name w name = (app_id_shape name \<and> length name = 26 + w)"

definition name_key :: "string \<Rightarrow> int \<times> int" where
  "name_key name = (int_digits (take 13 (drop 12 name)), int_digits (drop 26 name))"

text \<open>\<^verbatim>\<open>d.is_dir()\<close>\<close>

fun is_dir :: "string \<times> node \<Rightarrow> bool" where
  "is_dir (name, Dir children) = True"
| "is_dir (name, File f) = False"

text \<open>The same two applications with numbers of one width, 0009 and 0010.\<close>

definition demo_padded :: fs where
  "demo_padded =
     \<lparr>raw = [(''application_1111111111111_0010'',
               Dir [(''c.log'', Readable [''17/03/30 08:00:00 INFO c''])]),
             (''application_1111111111111_0009'',
               Dir [(''c.log'', Readable [''17/03/29 10:04:41 INFO a''])])],
      archive = None\<rparr>"

section \<open>Properties of problem1.py\<close>

subsection \<open>The pass keeps its counters and its sample in step\<close>

lemma level_count_snoc:
  "level_count (ls @ [(p, l)]) = level_count ls + (if has_level l then 1 else 0)"
  by (simp add: level_count_def)

lemma count_of_snoc:
  "count_of lvl (ls @ [(p, l)]) = count_of lvl ls + (if LEVEL_RE_search l = Some lvl then 1 else 0)"
  by (simp add: count_of_def)

lemma level_count_nonneg: "0 \<le> level_count ls"
  by (simp add: level_count_def)

lemma agg_inv_init: "agg_inv (agg_init g) []"
  by (simp add: agg_inv_def agg_init_def level_count_def count_of_def K_def)

lemma setitem_in_range:
  "1 \<le> j \<Longrightarrow> j \<le> int (length xs) \<Longrightarrow> setitem xs (j - 1) v = Inr (xs[nat (j - 1) := v])"
  by (simp add: setitem_def)

lemma main_step_sample:
  assumes ok: "randint_ok randint" and inv: "agg_inv s ls"
    and lv: "LEVEL_RE_search line = Some lvl"
  shows "\<exists>s'. main_step randint s (path, line) = Inr s' \<and>
           agg_inv s' (ls @ [(path, line)]) \<and>
           sample s' = algorithm_R K (level_count ls + 1)
                         (fst (randint (rng s) 1 (level_count ls + 1))) (path, line, lvl) (sample s) \<and>
           rng s' = (if level_count ls + 1 \<le> K then rng s
                     else snd (randint (rng s) 1 (level_count ls + 1)))"
proof -
  let ?N = "level_count ls + 1"
  have hl: "has_level line" using lv by (simp add: has_level_def)
  have nk: "n_kept s = level_count ls" and len: "int (length (sample s)) = min K (level_count ls)"
    using inv by (simp_all add: agg_inv_def)
  have N1: "1 \<le> ?N" using level_count_nonneg [of ls] by simp
  obtain j g' where r: "randint (rng s) 1 ?N = (j, g')" by (cases "randint (rng s) 1 ?N")
  have jr: "1 \<le> j \<and> j \<le> ?N" using ok N1 r unfolding randint_ok_def
    by (metis fst_conv)
  show ?thesis
  proof (cases "?N \<le> K")
    case True
    then have lt: "int (length (sample s)) < K" using len by simp
    show ?thesis using True lt lv hl inv
      by (simp add: main_step_def algorithm_R_def agg_inv_def level_count_snoc count_of_snoc)
  next
    case False
    then have full: "int (length (sample s)) = K" using len by simp
    show ?thesis
    proof (cases "j \<le> K")
      case True
      have si: "setitem (sample s) (j - 1) (path, line, lvl) = Inr ((sample s)[nat (j - 1) := (path, line, lvl)])"
        using jr True full by (intro setitem_in_range) simp_all
      show ?thesis using False True full lv hl inv r nk si
        by (simp add: main_step_def algorithm_R_def agg_inv_def level_count_snoc count_of_snoc)
    next
      case F2: False
      show ?thesis using False F2 full lv hl inv r nk
        by (simp add: main_step_def algorithm_R_def agg_inv_def level_count_snoc count_of_snoc)
    qed
  qed
qed

lemma main_step_skip:
  assumes inv: "agg_inv s ls" and lv: "LEVEL_RE_search line = None"
  shows "\<exists>s'. main_step randint s (path, line) = Inr s' \<and> agg_inv s' (ls @ [(path, line)]) \<and>
           sample s' = sample s \<and> rng s' = rng s"
  using inv lv
  by (simp add: main_step_def agg_inv_def level_count_snoc count_of_snoc has_level_def)

lemma main_step_inv:
  assumes ok: "randint_ok randint" and inv: "agg_inv s ls"
  shows "\<exists>s'. main_step randint s pl = Inr s' \<and> agg_inv s' (ls @ [pl])"
proof (cases pl)
  case (Pair path line)
  show ?thesis
  proof (cases "LEVEL_RE_search line")
    case None
    then show ?thesis using main_step_skip [OF inv None, of randint path] Pair by blast
  next
    case (Some lvl)
    then show ?thesis using main_step_sample [OF ok inv Some, of path] Pair by blast
  qed
qed

lemma main_loop_inv:
  assumes ok: "randint_ok randint"
  shows "agg_inv s pre \<Longrightarrow> \<exists>s'. main_loop randint s ls = Inr s' \<and> agg_inv s' (pre @ ls)"
proof (induction ls arbitrary: s pre)
  case Nil
  then show ?case by simp
next
  case (Cons pl ls)
  from main_step_inv [OF ok Cons.prems, of pl]
  obtain s1 where s1: "main_step randint s pl = Inr s1" "agg_inv s1 (pre @ [pl])" by blast
  from Cons.IH [OF s1(2)] s1(1) show ?case by simp
qed

lemma main_loop_total:
  assumes ok: "randint_ok randint"
  shows "\<exists>s. main_loop randint (agg_init g) ls = Inr s \<and> agg_inv s ls"
  using main_loop_inv [OF ok agg_inv_init, of g ls] by simp

lemma main_loop_inv_of:
  assumes ok: "randint_ok randint" and run: "main_loop randint (agg_init g) ls = Inr s"
  shows "agg_inv s ls"
  using main_loop_total [OF ok, of g ls] run by auto

lemma demo_randint_ok: "randint_ok demo_randint"
  unfolding randint_ok_def demo_randint_def
proof (intro allI impI)
  fix g :: nat and a b :: int
  assume "a \<le> b"
  then have pos: "0 < b - a + 1" by simp
  have "0 \<le> int g mod (b - a + 1)" using pos by (rule pos_mod_sign)
  moreover have "int g mod (b - a + 1) < b - a + 1" using pos by (rule pos_mod_bound)
  ultimately show "a \<le> fst (a + int g mod (b - a + 1), Suc g) \<and>
             fst (a + int g mod (b - a + 1), Suc g) \<le> b" by simp
qed

lemma level_count_sum:
  "level_count ls = count_of INFO ls + count_of WARN ls + count_of ERROR ls + count_of DEBUG ls"
proof (induction ls)
  case Nil
  then show ?case by (simp add: level_count_def count_of_def)
next
  case (Cons pl ls)
  obtain p l where pl: "pl = (p, l)" by (cases pl)
  have "level_count (pl # ls) = level_count ls + (if has_level l then 1 else 0)"
    by (simp add: level_count_def pl)
  moreover have "\<And>lvl. count_of lvl (pl # ls) =
      count_of lvl ls + (if LEVEL_RE_search l = Some lvl then 1 else 0)"
    by (simp add: count_of_def pl)
  ultimately have step: "level_count (pl # ls) = level_count ls + (if has_level l then 1 else 0)"
    "\<And>lvl. count_of lvl (pl # ls) =
      count_of lvl ls + (if LEVEL_RE_search l = Some lvl then 1 else 0)" by blast+
  show ?case
  proof (cases "LEVEL_RE_search l")
    case None
    then show ?thesis using step Cons.IH by (simp add: has_level_def)
  next
    case (Some a)
    then show ?thesis using step Cons.IH by (cases a) (simp_all add: has_level_def)
  qed
qed

lemma level_count_le_length: "level_count ls \<le> int (length ls)"
  by (simp add: level_count_def)

subsection \<open>The stand-alone sampler does what the loop of main does\<close>

lemma setitem_map:
  "setitem (map f xs) i (f v) = (case setitem xs i v of Inl e \<Rightarrow> Inl e | Inr ys \<Rightarrow> Inr (map f ys))"
  by (simp add: setitem_def map_update)

lemma reservoir_step_agrees:
  "reservoir_step randint K has_level (sampler_state s) pl =
     (case main_step randint s pl of Inl e \<Rightarrow> Inl e | Inr s' \<Rightarrow> Inr (sampler_state s'))"
proof (cases pl)
  case (Pair path line)
  show ?thesis
  proof (cases "LEVEL_RE_search line")
    case None
    then show ?thesis using Pair
      by (simp add: reservoir_step_def main_step_def sampler_state_def has_level_def)
  next
    case (Some lvl)
    have si: "\<And>i. setitem (map drop_level (sample s)) i (path, line) =
        (case setitem (sample s) i (path, line, lvl) of
           Inl e \<Rightarrow> Inl e | Inr ys \<Rightarrow> Inr (map drop_level ys))"
      using setitem_map [of drop_level "sample s" _ "(path, line, lvl)"]
      by (simp add: drop_level_def)
    show ?thesis
    proof (cases "int (length (sample s)) < K")
      case True
      then show ?thesis using Pair Some
        by (simp add: reservoir_step_def main_step_def sampler_state_def has_level_def
            drop_level_def)
    next
      case False
      obtain j g' where r: "randint (rng s) 1 (n_kept s + 1) = (j, g')"
        by (cases "randint (rng s) 1 (n_kept s + 1)")
      show ?thesis using Pair Some False r
        by (cases "setitem (sample s) (j - 1) (path, line, lvl)")
           (simp_all add: reservoir_step_def main_step_def sampler_state_def has_level_def si)
    qed
  qed
qed

lemma reservoir_loop_agrees:
  "reservoir_loop randint K has_level (sampler_state s) ls =
     (case main_loop randint s ls of Inl e \<Rightarrow> Inl e | Inr s' \<Rightarrow> Inr (sampler_state s'))"
proof (induction ls arbitrary: s)
  case Nil
  then show ?case by simp
next
  case (Cons pl ls)
  show ?case
    by (cases "main_step randint s pl") (simp_all add: reservoir_step_agrees Cons.IH)
qed

lemma reservoir_sample_agrees:
  assumes "main_loop randint (agg_init g) ls = Inr s"
  shows "reservoir_sample randint g ls K has_level = Inr (map drop_level (sample s))"
proof -
  have "sampler_state (agg_init g) = ([], 0, g)"
    by (simp add: sampler_state_def agg_init_def)
  then have "reservoir_loop randint K has_level ([], 0, g) ls = Inr (sampler_state s)"
    using reservoir_loop_agrees [of randint "agg_init g" ls] assms by simp
  then show ?thesis by (simp add: reservoir_sample_def sampler_state_def)
qed

subsection \<open>Claims\<close>

text \<open>
  C1. The sampler is algorithm R. Let the pass have run over the lines \<open>pre\<close> and
  reached the state \<open>s\<close>, and let the next line have a level, so that it is the
  \<open>N\<close>th qualifying line, \<open>N = level_count pre + 1\<close>. Then the step succeeds and
  the new sample is what algorithm R prescribes: the record appended when \<open>N \<le> K\<close>
  (\<open>K = 10\<close>); otherwise a number \<open>J\<close> is drawn by \<open>randint\<close> from 1 to \<open>N\<close>, and
  the record overwrites slot \<open>J - 1\<close>, which exists, when \<open>J \<le> K\<close>, and is dropped
  with the sample unchanged when \<open>J > K\<close>. A line without a level leaves the sample
  and the generator as they are. The stand-alone \<^verbatim>\<open>reservoir_sample\<close> computes the
  same sample. (That the draw is uniform is a property of the library's generator,
  which enters as \<open>randint\<close> with its range only.)
\<close>

theorem reservoir_follows_algorithm_R:
  assumes ok: "randint_ok randint"
    and run: "main_loop randint (agg_init g) pre = Inr s"
  shows "(LEVEL_RE_search line = Some lvl \<longrightarrow>
           (\<exists>s'. main_step randint s (path, line) = Inr s' \<and>
              sample s' = algorithm_R K (level_count pre + 1)
                (fst (randint (rng s) 1 (level_count pre + 1))) (path, line, lvl) (sample s) \<and>
              (K < level_count pre + 1 \<longrightarrow>
                 1 \<le> fst (randint (rng s) 1 (level_count pre + 1)) \<and>
                 fst (randint (rng s) 1 (level_count pre + 1)) \<le> level_count pre + 1 \<and>
                 int (length (sample s)) = K \<and> length (sample s') = length (sample s)))) \<and>
         (LEVEL_RE_search line = None \<longrightarrow>
           (\<exists>s'. main_step randint s (path, line) = Inr s' \<and> sample s' = sample s \<and>
              rng s' = rng s)) \<and>
         reservoir_sample randint g pre K has_level = Inr (map drop_level (sample s))"
proof (intro conjI impI)
  have inv: "agg_inv s pre" using ok run by (rule main_loop_inv_of)
  let ?N = "level_count pre + 1"
  let ?J = "fst (randint (rng s) 1 ?N)"
  show "reservoir_sample randint g pre K has_level = Inr (map drop_level (sample s))"
    using run by (rule reservoir_sample_agrees)
  {
    assume lv: "LEVEL_RE_search line = None"
    show "\<exists>s'. main_step randint s (path, line) = Inr s' \<and> sample s' = sample s \<and> rng s' = rng s"
      using main_step_skip [OF inv lv, of randint path] by blast
  }
  {
    assume lv: "LEVEL_RE_search line = Some lvl"
    from main_step_sample [OF ok inv lv, of path]
    obtain s' where s': "main_step randint s (path, line) = Inr s'"
      "agg_inv s' (pre @ [(path, line)])"
      "sample s' = algorithm_R K ?N ?J (path, line, lvl) (sample s)" by blast
    have N1: "1 \<le> ?N" using level_count_nonneg [of pre] by simp
    have J: "1 \<le> ?J \<and> ?J \<le> ?N" using ok N1 unfolding randint_ok_def by blast
    have len: "int (length (sample s)) = min K (level_count pre)"
      using inv by (simp add: agg_inv_def)
    have len': "K < ?N \<longrightarrow> int (length (sample s)) = K \<and> length (sample s') = length (sample s)"
      using len s'(3) by (auto simp: algorithm_R_def)
    show "\<exists>s'. main_step randint s (path, line) = Inr s' \<and>
              sample s' = algorithm_R K ?N ?J (path, line, lvl) (sample s) \<and>
              (K < ?N \<longrightarrow> 1 \<le> ?J \<and> ?J \<le> ?N \<and>
                 int (length (sample s)) = K \<and> length (sample s') = length (sample s))"
      using s'(1,3) J len' by blast
  }
qed

theorem reservoir_follows_algorithm_R_witness:
  "randint_ok demo_randint \<and>
   main_loop demo_randint (agg_init 0) [(''a.log'', ''x INFO y'')] =
     Inr \<lparr>total_lines = 1, level_lines = 1, counts = (\<lambda>l. 0)(INFO := 1),
          sample = [(''a.log'', ''x INFO y'', INFO)], n_kept = 1, rng = 0\<rparr> \<and>
   LEVEL_RE_search ''WARN z'' = Some WARN \<and>
   (\<exists>s'. main_step demo_randint
            \<lparr>total_lines = 1, level_lines = 1, counts = (\<lambda>l. 0)(INFO := 1),
             sample = [(''a.log'', ''x INFO y'', INFO)], n_kept = 1, rng = 0\<rparr>
            (''b.log'', ''WARN z'') = Inr s' \<and>
          sample s' = [(''a.log'', ''x INFO y'', INFO), (''b.log'', ''WARN z'', WARN)])"
proof -
  have run: "main_loop demo_randint (agg_init 0) [(''a.log'', ''x INFO y'')] =
     Inr \<lparr>total_lines = 1, level_lines = 1, counts = (\<lambda>l. 0)(INFO := 1),
          sample = [(''a.log'', ''x INFO y'', INFO)], n_kept = 1, rng = 0\<rparr>"
    by (simp add: main_step_def agg_init_def K_def LEVEL_RE_search_def LEVEL_RE_at_def
        level_tokens_def token_here_def word_boundary_def is_word_def)
  have lv: "LEVEL_RE_search ''WARN z'' = Some WARN"
    by (simp add: LEVEL_RE_search_def LEVEL_RE_at_def level_tokens_def token_here_def
        word_boundary_def is_word_def)
  have lc: "level_count [(''a.log'', ''x INFO y'')] = 1"
    by (simp add: level_count_def has_level_def LEVEL_RE_search_def LEVEL_RE_at_def
        level_tokens_def token_here_def word_boundary_def is_word_def)
  show ?thesis
    using reservoir_follows_algorithm_R [OF demo_randint_ok run, of "''WARN z''" WARN "''b.log''"]
      demo_randint_ok run lv lc
    by (simp add: algorithm_R_def K_def)
qed

text \<open>
  C3. At every point of the pass, that is after every prefix \<open>take n ls\<close> of the
  stream, and hence at its end, the pass has not failed, \<open>level_lines\<close> is the number
  of lines seen so far in which a level was detected, and the sample holds
  \<open>min K level_lines\<close> records, \<open>K = 10\<close>.
\<close>

theorem sample_size_is_min:
  assumes ok: "randint_ok randint"
  shows "\<exists>s. main_loop randint (agg_init g) (take n ls) = Inr s \<and>
             level_lines s = level_count (take n ls) \<and>
             int (length (sample s)) = min K (level_lines s)"
  using main_loop_total [OF ok, of g "take n ls"] by (auto simp: agg_inv_def)

theorem sample_size_is_min_witness:
  "randint_ok demo_randint \<and>
   (\<exists>s. main_loop demo_randint (agg_init 0)
          (take 2 [(''a.log'', ''x INFO y''), (''a.log'', ''no level''), (''a.log'', ''ERROR'')]) = Inr s \<and>
        level_lines s = 1 \<and> int (length (sample s)) = min K (level_lines s))"
proof -
  have lc: "level_count (take 2 [(''a.log'', ''x INFO y''), (''a.log'', ''no level''),
      (''a.log'', ''ERROR'')]) = 1"
    by (simp add: level_count_def has_level_def LEVEL_RE_search_def LEVEL_RE_at_def
        level_tokens_def token_here_def word_boundary_def is_word_def)
  show ?thesis
    using sample_size_is_min [OF demo_randint_ok, of 0 2
        "[(''a.log'', ''x INFO y''), (''a.log'', ''no level''), (''a.log'', ''ERROR'')]"]
      demo_randint_ok lc
    by auto
qed

text \<open>
  C4. After the pass over any stream, \<open>total_lines\<close> is the number of lines,
  \<open>level_lines\<close> the number of lines with a level, each per-level count the number
  of lines with that level; so \<open>total_lines \<ge> level_lines\<close>, and \<open>level_lines\<close> is
  the sum of the four per-level counts.
\<close>

theorem counts_add_up:
  assumes ok: "randint_ok randint"
  shows "\<exists>s. main_loop randint (agg_init g) ls = Inr s \<and>
             total_lines s = int (length ls) \<and>
             level_lines s = level_count ls \<and>
             (\<forall>lvl. counts s lvl = count_of lvl ls) \<and>
             total_lines s \<ge> level_lines s \<and>
             level_lines s = counts s INFO + counts s WARN + counts s ERROR + counts s DEBUG"
proof -
  from main_loop_total [OF ok, of g ls]
  obtain s where s: "main_loop randint (agg_init g) ls = Inr s" "agg_inv s ls" by blast
  have "total_lines s \<ge> level_lines s"
    using s(2) level_count_le_length [of ls] by (simp add: agg_inv_def)
  moreover have "level_lines s = counts s INFO + counts s WARN + counts s ERROR + counts s DEBUG"
    using s(2) level_count_sum [of ls] by (simp add: agg_inv_def)
  ultimately show ?thesis using s by (auto simp: agg_inv_def)
qed

theorem counts_add_up_witness:
  "randint_ok demo_randint \<and>
   (\<exists>s. main_loop demo_randint (agg_init 0)
          [(''a.log'', ''x INFO y''), (''a.log'', ''no level'')] = Inr s \<and>
        total_lines s = 2 \<and> level_lines s = 1 \<and> total_lines s \<ge> level_lines s \<and>
        level_lines s = counts s INFO + counts s WARN + counts s ERROR + counts s DEBUG)"
proof -
  have lc: "level_count [(''a.log'', ''x INFO y''), (''a.log'', ''no level'')] = 1"
    by (simp add: level_count_def has_level_def LEVEL_RE_search_def LEVEL_RE_at_def
        level_tokens_def token_here_def word_boundary_def is_word_def)
  show ?thesis
    using counts_add_up [OF demo_randint_ok, of 0
        "[(''a.log'', ''x INFO y''), (''a.log'', ''no level'')]"]
      demo_randint_ok lc
    by auto
qed

text \<open>
  C9. The percentage never divides by zero: \<open>pct\<close> does not raise
  \<open>ZeroDivisionError\<close>; with denominator zero it is \<open>0.00%\<close>, and otherwise it is
  the quotient times 100 in the two-decimal format, followed by the percent sign.
  So when no line had a level, the line of every level in the summary shows
  \<open>0.00%\<close>.
\<close>

theorem pct_never_divides_by_zero:
  "pct fl x 0 = Inr ''0.00%'' \<and>
   (denom \<noteq> 0 \<longrightarrow> pct fl x denom = Inr (format_2f fl (fmul fl (fdiv fl x denom) 100) @ ''%'')) \<and>
   pct fl x denom \<noteq> Inl ZeroDivisionError \<and>
   (level_lines s = 0 \<longrightarrow>
      (\<forall>lvl. distribution_line fl s lvl =
         Inr (''  '' @ ljust 5 (level_name lvl) @ '': '' @ rjust 10 (str_int (counts s lvl)) @
              '' (0.00%)'' @ [newline])))"
  by (simp add: pct_def truediv_def distribution_line_def)

theorem pct_never_divides_by_zero_witness:
  "(3::int) \<noteq> 0 \<and> pct demo_float 1 3 = Inr ''33.33%'' \<and>
   level_lines (agg_init (0::nat)) = 0 \<and>
   distribution_line demo_float (agg_init (0::nat)) WARN =
     Inr (''  WARN :          0 (0.00%)'' @ [newline])"
proof -
  have a: "format_2f demo_float (fmul demo_float (fdiv demo_float 1 3) 100) = ''33.33''"
    by (simp add: demo_float_def str_int_def rjust_def str_nat.simps digit_char_def)
  have b: "level_lines (agg_init (0::nat)) = 0" by (simp add: agg_init_def)
  have c: "rjust 10 (str_int (counts (agg_init (0::nat)) WARN)) = ''         0''"
    by (simp add: agg_init_def str_int_def rjust_def str_nat.simps digit_char_def
        numeral_eq_Suc)
  show ?thesis
    using pct_never_divides_by_zero [of demo_float 1 3 "agg_init (0::nat)"] a b c
    by (simp add: ljust_def)
qed

subsection \<open>Level extraction\<close>

lemma at_pos_0: "at_pos p s 0 = LEVEL_RE_at p s"
  by (simp add: at_pos_def)

lemma at_pos_Suc: "at_pos p (c # cs) (Suc i) = at_pos (Some c) cs i"
  by (cases i) (simp_all add: at_pos_def)

lemma LEVEL_RE_at_Nil: "LEVEL_RE_at p [] = None"
  by (simp add: LEVEL_RE_at_def level_tokens_def token_here_def)

lemma from_Some_iff:
  "LEVEL_RE_from p s = Some lvl \<longleftrightarrow>
     (\<exists>i\<le>length s. at_pos p s i = Some lvl \<and> (\<forall>j<i. at_pos p s j = None))"
proof (induction s arbitrary: p)
  case Nil
  then show ?case by (simp add: at_pos_0 LEVEL_RE_at_Nil)
next
  case (Cons c cs)
  show ?case
  proof (cases "LEVEL_RE_at p (c # cs)")
    case (Some l)
    have "(\<exists>i\<le>length (c # cs). at_pos p (c # cs) i = Some lvl \<and> (\<forall>j<i. at_pos p (c # cs) j = None))
          \<longleftrightarrow> l = lvl"
    proof
      assume "\<exists>i\<le>length (c # cs). at_pos p (c # cs) i = Some lvl \<and> (\<forall>j<i. at_pos p (c # cs) j = None)"
      then obtain i where i: "at_pos p (c # cs) i = Some lvl" "\<forall>j<i. at_pos p (c # cs) j = None" by blast
      have "i = 0"
      proof (rule ccontr)
        assume "i \<noteq> 0"
        then have "at_pos p (c # cs) 0 = None" using i(2) by simp
        then show False using Some by (simp add: at_pos_0)
      qed
      then show "l = lvl" using i(1) Some by (simp add: at_pos_0)
    next
      assume "l = lvl"
      then have "at_pos p (c # cs) 0 = Some lvl" using Some by (simp add: at_pos_0)
      then show "\<exists>i\<le>length (c # cs). at_pos p (c # cs) i = Some lvl \<and> (\<forall>j<i. at_pos p (c # cs) j = None)"
        by (intro exI [of _ 0]) simp
    qed
    then show ?thesis using Some by simp
  next
    case None
    have "(\<exists>i\<le>length (c # cs). at_pos p (c # cs) i = Some lvl \<and> (\<forall>j<i. at_pos p (c # cs) j = None))
          \<longleftrightarrow> (\<exists>i\<le>length cs. at_pos (Some c) cs i = Some lvl \<and> (\<forall>j<i. at_pos (Some c) cs j = None))"
      (is "?L \<longleftrightarrow> ?R")
    proof
      assume ?L
      then obtain i where i: "i \<le> length (c # cs)" "at_pos p (c # cs) i = Some lvl"
        "\<forall>j<i. at_pos p (c # cs) j = None" by blast
      from i(2) None obtain k where k: "i = Suc k" by (cases i) (simp_all add: at_pos_0)
      have "\<forall>j<k. at_pos (Some c) cs j = None"
      proof (intro allI impI)
        fix j assume "j < k"
        then have "at_pos p (c # cs) (Suc j) = None" using i(3) k by simp
        then show "at_pos (Some c) cs j = None" by (simp add: at_pos_Suc)
      qed
      then show ?R using i(1,2) k by (intro exI [of _ k]) (simp add: at_pos_Suc)
    next
      assume ?R
      then obtain i where i: "i \<le> length cs" "at_pos (Some c) cs i = Some lvl"
        "\<forall>j<i. at_pos (Some c) cs j = None" by blast
      have "\<forall>j<Suc i. at_pos p (c # cs) j = None"
      proof (intro allI impI)
        fix j assume j: "j < Suc i"
        show "at_pos p (c # cs) j = None"
        proof (cases j)
          case 0
          then show ?thesis using None by (simp add: at_pos_0)
        next
          case (Suc m)
          then show ?thesis using j i(3) by (simp add: at_pos_Suc)
        qed
      qed
      then show ?L using i(1,2) by (intro exI [of _ "Suc i"]) (simp add: at_pos_Suc)
    qed
    then show ?thesis using None Cons.IH [of "Some c"] by simp
  qed
qed

lemma is_word_token_chars [simp]:
  "is_word CHR ''I''" "is_word CHR ''W''" "is_word CHR ''E''" "is_word CHR ''D''"
  "is_word CHR ''O''" "is_word CHR ''N''" "is_word CHR ''R''" "is_word CHR ''G''"
  by (simp_all add: is_word_def)

lemma first_char_drop: "first_char (drop n s) = (if n < length s then Some (s ! n) else None)"
proof (cases "n < length s")
  case True
  then show ?thesis by (simp add: Cons_nth_drop_Suc [symmetric])
next
  case False
  then show ?thesis by simp
qed

lemma take_token_first:
  "tok \<noteq> [] \<Longrightarrow> take (length tok) s = tok \<Longrightarrow> first_char s = Some (hd tok)"
  by (cases s; cases tok) auto

lemma token_first:
  "token_here (level_name l) s \<Longrightarrow> first_char s = Some (hd (level_name l))"
  unfolding token_here_def by (intro take_token_first) (cases l; simp)+

lemma token_unique:
  "token_here (level_name l) s \<Longrightarrow> token_here (level_name l') s \<Longrightarrow> l = l'"
  using token_first [of l s] token_first [of l' s] by (cases l; cases l') simp_all

lemma LEVEL_RE_at_expand:
  "LEVEL_RE_at p s =
     (if word_boundary p (first_char s)
      then (if token_here ''INFO'' s then Some INFO
            else if token_here ''WARN'' s then Some WARN
            else if token_here ''ERROR'' s then Some ERROR
            else if token_here ''DEBUG'' s then Some DEBUG else None)
      else None)"
  by (simp add: LEVEL_RE_at_def level_tokens_def)

lemma LEVEL_RE_at_token:
  "LEVEL_RE_at p s = Some lvl \<longleftrightarrow>
     (word_boundary p (first_char s) \<and> token_here (level_name lvl) s)"
  using token_unique [of INFO s WARN] token_unique [of INFO s ERROR]
    token_unique [of INFO s DEBUG] token_unique [of WARN s ERROR]
    token_unique [of WARN s DEBUG] token_unique [of ERROR s DEBUG]
  by (cases lvl) (auto simp: LEVEL_RE_at_expand)

lemma LEVEL_RE_at_iff:
  "LEVEL_RE_at p s = Some lvl \<longleftrightarrow>
     (\<not> word_char p \<and> take (length (level_name lvl)) s = level_name lvl \<and>
      \<not> word_char (first_char (drop (length (level_name lvl)) s)))"
proof -
  have last_word: "is_word (last (level_name lvl))" by (cases lvl) simp_all
  have first_word: "is_word (hd (level_name lvl))" by (cases lvl) simp_all
  have "token_here (level_name lvl) s \<Longrightarrow> word_boundary p (first_char s) \<longleftrightarrow> \<not> word_char p"
    using token_first [of lvl s] first_word by (simp add: word_boundary_def)
  then show ?thesis
    unfolding LEVEL_RE_at_token using last_word
    by (auto simp: token_here_def word_boundary_def)
qed

lemma at_pos_standalone:
  "at_pos None line i = Some lvl \<longleftrightarrow> standalone_at line i (level_name lvl)"
proof -
  let ?n = "length (level_name lvl)"
  have npos: "0 < ?n" by (cases lvl) simp_all
  have tk: "take ?n (drop i line) = level_name lvl \<Longrightarrow> i + ?n \<le> length line"
  proof -
    assume "take ?n (drop i line) = level_name lvl"
    then have "length (take ?n (drop i line)) = ?n" by simp
    then have "min (length line - i) ?n = ?n" by simp
    then show ?thesis using npos by linarith
  qed
  have prev: "\<not> word_char (if i = 0 then None else Some (line ! (i - 1))) \<longleftrightarrow>
              (i = 0 \<or> \<not> is_word (line ! (i - 1)))" by simp
  have nxt: "\<not> word_char (first_char (drop ?n (drop i line))) \<longleftrightarrow>
             (length line \<le> i + ?n \<or> \<not> is_word (line ! (i + ?n)))"
    by (simp add: first_char_drop add.commute)
  show ?thesis
    unfolding at_pos_def LEVEL_RE_at_iff standalone_at_def prev nxt
    using tk by auto
qed

lemma standalone_at_bound: "standalone_at line i (level_name l) \<Longrightarrow> i \<le> length line"
  by (simp add: standalone_at_def)

text \<open>
  C5. Level extraction returns the level whose token is the leftmost one standing
  alone in the line: \<^verbatim>\<open>LEVEL_RE.search\<close> gives \<open>lvl\<close> exactly when the token of
  \<open>lvl\<close> stands alone at some position and no token of the vocabulary stands alone
  at an earlier one; it gives nothing exactly when no token stands alone anywhere.
  The line \<^verbatim>\<open>random text ERRORISH\<close> has no level.
\<close>

theorem level_search_leftmost:
  "(LEVEL_RE_search line = Some lvl \<longleftrightarrow>
      (\<exists>i. standalone_at line i (level_name lvl) \<and>
           (\<forall>j<i. \<forall>l. \<not> standalone_at line j (level_name l)))) \<and>
   (LEVEL_RE_search line = None \<longleftrightarrow> (\<forall>i l. \<not> standalone_at line i (level_name l))) \<and>
   LEVEL_RE_search ''random text ERRORISH'' = None"
proof (intro conjI)
  have none_iff: "\<And>j. at_pos None line j = None \<longleftrightarrow> (\<forall>l. \<not> standalone_at line j (level_name l))"
    using at_pos_standalone [of line] by (metis option.exhaust option.distinct(1))
  show A: "LEVEL_RE_search line = Some lvl \<longleftrightarrow>
      (\<exists>i. standalone_at line i (level_name lvl) \<and>
           (\<forall>j<i. \<forall>l. \<not> standalone_at line j (level_name l)))"
    unfolding LEVEL_RE_search_def from_Some_iff at_pos_standalone none_iff
    using standalone_at_bound by blast
  show "LEVEL_RE_search line = None \<longleftrightarrow> (\<forall>i l. \<not> standalone_at line i (level_name l))"
  proof
    assume n: "LEVEL_RE_search line = None"
    show "\<forall>i l. \<not> standalone_at line i (level_name l)"
    proof (rule ccontr)
      assume "\<not> (\<forall>i l. \<not> standalone_at line i (level_name l))"
      then have ex: "\<exists>i. \<exists>l. standalone_at line i (level_name l)" by blast
      define m where "m = (LEAST i. \<exists>l. standalone_at line i (level_name l))"
      have "\<exists>l. standalone_at line m (level_name l)"
        unfolding m_def using ex by (rule LeastI_ex)
      then obtain l where l: "standalone_at line m (level_name l)" by blast
      have "\<forall>j<m. \<forall>l. \<not> standalone_at line j (level_name l)"
        unfolding m_def using not_less_Least by blast
      then have "at_pos None line m = Some l \<and> (\<forall>j<m. at_pos None line j = None)"
        using l by (simp add: at_pos_standalone none_iff)
      moreover have "m \<le> length line" using l by (rule standalone_at_bound)
      ultimately have "LEVEL_RE_from None line = Some l"
        unfolding from_Some_iff by blast
      then show False using n by (simp add: LEVEL_RE_search_def)
    qed
  next
    assume a: "\<forall>i l. \<not> standalone_at line i (level_name l)"
    show "LEVEL_RE_search line = None"
    proof (cases "LEVEL_RE_search line")
      case None then show ?thesis .
    next
      case (Some l)
      then have "\<exists>i\<le>length line. at_pos None line i = Some l \<and> (\<forall>j<i. at_pos None line j = None)"
        by (simp add: LEVEL_RE_search_def from_Some_iff)
      then show ?thesis using a by (auto simp: at_pos_standalone)
    qed
  qed
  show "LEVEL_RE_search ''random text ERRORISH'' = None"
    by (simp add: LEVEL_RE_search_def LEVEL_RE_at_def level_tokens_def token_here_def
        word_boundary_def is_word_def)
qed


theorem level_search_leftmost_witness:
  "LEVEL_RE_search ''x_ERROR WARN: DEBUG'' = Some WARN \<and>
   (\<exists>i. standalone_at ''x_ERROR WARN: DEBUG'' i (level_name WARN) \<and>
        (\<forall>j<i. \<forall>l. \<not> standalone_at ''x_ERROR WARN: DEBUG'' j (level_name l)))"
proof -
  have a: "LEVEL_RE_search ''x_ERROR WARN: DEBUG'' = Some WARN"
    by (simp add: LEVEL_RE_search_def LEVEL_RE_at_def level_tokens_def token_here_def
        word_boundary_def is_word_def)
  show ?thesis using level_search_leftmost [of "''x_ERROR WARN: DEBUG''" WARN] a by blast
qed

text \<open>
  Beyond ASCII: a letter of Latin-1 before the token is a word character, so the
  token does not stand alone; a no-break space is not one.
\<close>

lemma latin1_word_no_level: "LEVEL_RE_search (CHR 0xE9 # ''INFO'') = None"
  by (simp add: LEVEL_RE_search_def LEVEL_RE_at_def level_tokens_def token_here_def
      word_boundary_def is_word_def)

lemma nbsp_not_word_level: "LEVEL_RE_search (CHR 0xA0 # ''INFO'') = Some INFO"
  by (simp add: LEVEL_RE_search_def LEVEL_RE_at_def level_tokens_def token_here_def
      word_boundary_def is_word_def)

section \<open>Properties of problem2.py\<close>

subsection \<open>Timestamps\<close>

lemma digit_val_range: "is_digit c \<Longrightarrow> 0 \<le> digit_val c \<and> digit_val c \<le> 9"
  by (auto simp: is_digit_def digit_val_def Let_def)
















text \<open>White space beyond ASCII between date and time is white space to both patterns.\<close>

lemma nel_is_space:
  "TS_RE_match (''17/03/29'' @ [CHR 0x85] @ ''10:04:41 INFO x'') =
     Some (''17/03/29'' @ [CHR 0x85] @ ''10:04:41'')"
  by (simp add: TS_RE_match_def is_digit_def is_space_def)

lemma nel_parse:
  "parse_ts (''17/03/29'' @ [CHR 0x85] @ ''10:04:41'') = Inr (2017, 3, 29, 10, 4, 41)"
  by (simp add: parse_ts_def strptime_def is_digit_def is_space_def digit_val_def
      days_in_month_def year_def)

subsection \<open>Application directory names\<close>

lemma newline_not_digit: "\<not> is_digit newline"
  by (simp add: is_digit_def newline_def)

lemma digits_split:
  "list_all P xs \<Longrightarrow> takeWhile P (xs @ ys) = xs @ takeWhile P ys"
  "list_all P xs \<Longrightarrow> dropWhile P (xs @ ys) = dropWhile P ys"
  by (induction xs) simp_all

lemma chomp_digits:
  assumes "t \<noteq> []"
  shows "(takeWhile is_digit t \<noteq> [] \<and>
          (dropWhile is_digit t = [] \<or> dropWhile is_digit t = [newline])) \<longleftrightarrow>
         (chomp t \<noteq> [] \<and> list_all is_digit (chomp t))"
proof (cases "last t = newline")
  case True
  then obtain u where t: "t = u @ [newline]" using assms by (metis append_butlast_last_id)
  have c: "chomp t = u" by (simp add: chomp_def t)
  show ?thesis
  proof
    assume a: "takeWhile is_digit t \<noteq> [] \<and>
          (dropWhile is_digit t = [] \<or> dropWhile is_digit t = [newline])"
    have ne: "dropWhile is_digit t \<noteq> []"
      using t newline_not_digit by (simp add: dropWhile_eq_Nil_conv)
    with a have d: "dropWhile is_digit t = [newline]" by blast
    have "takeWhile is_digit t @ [newline] = t"
      using takeWhile_dropWhile_id [of is_digit t] d by simp
    then have u: "u = takeWhile is_digit t" using t by (metis append1_eq_conv)
    have "list_all is_digit (takeWhile is_digit t)"
      by (simp add: list_all_iff) (meson set_takeWhileD)
    then show "chomp t \<noteq> [] \<and> list_all is_digit (chomp t)"
      using a u c by simp
  next
    assume a: "chomp t \<noteq> [] \<and> list_all is_digit (chomp t)"
    then have u: "u \<noteq> []" "list_all is_digit u" using c by simp_all
    have "takeWhile is_digit t = u" "dropWhile is_digit t = [newline]"
      using u(2) newline_not_digit by (simp_all add: t digits_split)
    then show "takeWhile is_digit t \<noteq> [] \<and>
          (dropWhile is_digit t = [] \<or> dropWhile is_digit t = [newline])"
      using u(1) by simp
  qed
next
  case False
  then have c: "chomp t = t" by (simp add: chomp_def)
  have d1: "dropWhile is_digit t \<noteq> [newline]"
  proof
    assume d: "dropWhile is_digit t = [newline]"
    have "takeWhile is_digit t @ [newline] = t"
      using takeWhile_dropWhile_id [of is_digit t] d by simp
    then have "last t = newline" by (metis last_snoc)
    then show False using False by simp
  qed
  have e: "dropWhile is_digit t = [] \<longleftrightarrow> list_all is_digit t"
    by (simp add: dropWhile_eq_Nil_conv list_all_iff)
  have f: "list_all is_digit t \<Longrightarrow> takeWhile is_digit t = t"
    by (simp add: list_all_iff)
  show ?thesis
  proof
    assume "takeWhile is_digit t \<noteq> [] \<and>
          (dropWhile is_digit t = [] \<or> dropWhile is_digit t = [newline])"
    then have "dropWhile is_digit t = []" using d1 by blast
    then have "list_all is_digit t" using e by blast
    then show "chomp t \<noteq> [] \<and> list_all is_digit (chomp t)" using assms unfolding c by blast
  next
    assume "chomp t \<noteq> [] \<and> list_all is_digit (chomp t)"
    then have a: "list_all is_digit t" unfolding c by blast
    then have "takeWhile is_digit t = t" by (rule f)
    then have "takeWhile is_digit t \<noteq> []" using assms by metis
    moreover have "dropWhile is_digit t = []" using a e by blast
    ultimately show "takeWhile is_digit t \<noteq> [] \<and>
          (dropWhile is_digit t = [] \<or> dropWhile is_digit t = [newline])" by blast
  qed
qed

lemma chomp_long:
  assumes "n < length s"
  shows "take n (chomp s) = take n s" and "drop n (chomp s) = chomp (drop n s)"
proof -
  have ne: "s \<noteq> []" using assms by auto
  show "take n (chomp s) = take n s"
    using assms by (simp add: chomp_def butlast_conv_take)
  have "last (drop n s) = last s" using assms by simp
  then show "drop n (chomp s) = chomp (drop n s)"
    using assms ne by (simp add: chomp_def drop_butlast)
qed

lemma shape_long: "app_id_shape s \<Longrightarrow> 26 < length s"
  by (auto simp: app_id_shape_def)

lemma if_Some_None: "((if C then Some x else None) \<noteq> None) = C"
  by simp

lemma APP_DIR_RE_at_cond:
  "APP_DIR_RE_at s \<noteq> None \<longleftrightarrow>
     (take 12 s = ''application_'' \<and> length (take 13 (drop 12 s)) = 13 \<and>
      list_all is_digit (take 13 (drop 12 s)) \<and> take 1 (drop 25 s) = ''_'' \<and>
      takeWhile is_digit (drop 26 s) \<noteq> [] \<and>
      (dropWhile is_digit (drop 26 s) = [] \<or> dropWhile is_digit (drop 26 s) = [newline]))"
  unfolding APP_DIR_RE_at_def Let_def by (rule if_Some_None)

lemma at_long: "APP_DIR_RE_at s \<noteq> None \<Longrightarrow> 26 < length s"
proof -
  assume "APP_DIR_RE_at s \<noteq> None"
  then have "takeWhile is_digit (drop 26 s) \<noteq> []" unfolding APP_DIR_RE_at_cond by blast
  then have "drop 26 s \<noteq> []" by auto
  then show ?thesis by simp
qed

lemma chomp_length: "length (chomp s) \<le> length s"
  by (simp add: chomp_def)

lemma chomp_mid:
  assumes "n + k < length s"
  shows "take k (drop n (chomp s)) = take k (drop n s)"
proof -
  have "drop n (chomp s) = chomp (drop n s)" using assms by (intro chomp_long(2)) simp
  moreover have "take k (chomp (drop n s)) = take k (drop n s)"
    using assms by (intro chomp_long(1)) simp
  ultimately show ?thesis by simp
qed

lemma APP_DIR_RE_at_shape: "APP_DIR_RE_at s \<noteq> None \<longleftrightarrow> app_id_shape (chomp s)"
proof (cases "26 < length s")
  case False
  then have "\<not> 26 < length (chomp s)" using chomp_length [of s] by simp
  then show ?thesis using False at_long [of s] shape_long [of "chomp s"] by blast
next
  case True
  have t12: "take 12 (chomp s) = take 12 s" using True by (intro chomp_long(1)) simp
  have m13: "take 13 (drop 12 (chomp s)) = take 13 (drop 12 s)"
    using True by (intro chomp_mid) simp
  have u: "take 1 (drop 25 (chomp s)) = take 1 (drop 25 s)"
    using True by (intro chomp_mid) simp
  have d26: "drop 26 (chomp s) = chomp (drop 26 s)" using True by (intro chomp_long(2))
  have ne: "drop 26 s \<noteq> []" using True by simp
  show ?thesis
    unfolding app_id_shape_def APP_DIR_RE_at_cond t12 m13 u d26
    using chomp_digits [OF ne] by blast
qed


lemma self_in_tails: "s \<in> set (tails s)"
  by (cases s) simp_all

lemma tails_iff: "s \<in> set (tails name) \<longleftrightarrow> (\<exists>pre. name = pre @ s)"
proof (induction name)
  case Nil
  then show ?case by simp
next
  case (Cons c cs)
  show ?case
  proof
    assume "s \<in> set (tails (c # cs))"
    then have "s = c # cs \<or> (\<exists>pre. cs = pre @ s)" using Cons.IH by simp
    then show "\<exists>pre. c # cs = pre @ s"
    proof (elim disjE exE)
      assume "s = c # cs"
      then have "c # cs = [] @ s" by simp
      then show ?thesis by blast
    next
      fix pre assume "cs = pre @ s"
      then have "c # cs = (c # pre) @ s" by simp
      then show ?thesis by blast
    qed
  next
    assume "\<exists>pre. c # cs = pre @ s"
    then obtain pre where p: "c # cs = pre @ s" by blast
    show "s \<in> set (tails (c # cs))"
    proof (cases pre)
      case Nil
      then have "s = c # cs" using p by simp
      then show ?thesis using self_in_tails [of s] by simp
    next
      case (Cons a as)
      then have "cs = as @ s" using p by simp
      then show ?thesis using Cons.IH by auto
    qed
  qed
qed

lemma chomp_append: "s \<noteq> [] \<Longrightarrow> chomp (pre @ s) = pre @ chomp s"
  by (simp add: chomp_def butlast_append)

lemma chomp_snoc: "chomp (t @ [newline]) = t"
  by (simp add: chomp_def)

lemma shape_nonempty: "app_id_shape s \<Longrightarrow> s \<noteq> []"
  using shape_long [of s] by auto

lemma ends_chomp:
  "(\<exists>s\<in>set (tails name). app_id_shape (chomp s)) \<longleftrightarrow> ends_in_app_id (chomp name)"
proof
  assume "\<exists>s\<in>set (tails name). app_id_shape (chomp s)"
  then obtain s where s0: "s \<in> set (tails name)" and s2: "app_id_shape (chomp s)" by blast
  from s0 obtain pre where s1: "name = pre @ s" using tails_iff [of s name] by blast
  note s = s1 s2
  have "s \<noteq> []"
  proof
    assume "s = []"
    then have "chomp s = []" by (simp add: chomp_def)
    then show False using s(2) shape_nonempty [of "chomp s"] by blast
  qed
  then have "chomp name = pre @ chomp s" unfolding s(1) by (rule chomp_append)
  then have "chomp s \<in> set (tails (chomp name))"
    using tails_iff [of "chomp s" "chomp name"] by blast
  then have "\<exists>x\<in>set (tails (chomp name)). app_id_shape x" using s(2) by blast
  then show "ends_in_app_id (chomp name)"
    unfolding ends_in_app_id_def list_ex_iff .
next
  assume "ends_in_app_id (chomp name)"
  then have "\<exists>x\<in>set (tails (chomp name)). app_id_shape x"
    unfolding ends_in_app_id_def list_ex_iff .
  then obtain t where t0: "t \<in> set (tails (chomp name))" and t2: "app_id_shape t" by blast
  from t0 obtain pre where t1: "chomp name = pre @ t"
    using tails_iff [of t "chomp name"] by blast
  note t = t1 t2
  have tne: "t \<noteq> []" using t(2) by (rule shape_nonempty)
  show "\<exists>s\<in>set (tails name). app_id_shape (chomp s)"
  proof (cases "name \<noteq> [] \<and> last name = newline")
    case True
    then have b: "chomp name = butlast name" and l: "last name = newline" and ne: "name \<noteq> []"
      by (simp_all add: chomp_def)
    have "butlast name @ [last name] = name" using ne by (rule append_butlast_last_id)
    then have "(pre @ t) @ [newline] = name" unfolding l b [symmetric] t(1) .
    then have "name = pre @ (t @ [newline])" by (simp only: append_assoc)
    then have "t @ [newline] \<in> set (tails name)"
      using tails_iff [of "t @ [newline]" name] by blast
    then show ?thesis using t(2) chomp_snoc [of t] by (intro bexI [of _ "t @ [newline]"]) simp_all
  next
    case False
    then have "chomp name = name" by (auto simp: chomp_def)
    then have n: "name = pre @ t" using t(1) by simp
    then have l: "last t = last name" using tne by simp
    have "name \<noteq> []" using n tne by simp
    then have "last name \<noteq> newline" using False by blast
    then have "last t \<noteq> newline" using l by simp
    then have "chomp t = t" by (simp add: chomp_def)
    moreover have "t \<in> set (tails name)" using tails_iff [of t name] n by blast
    ultimately show ?thesis using t(2) by (intro bexI [of _ t]) simp_all
  qed
qed

lemma search_None_iff:
  "APP_DIR_RE_search name = None \<longleftrightarrow> (\<forall>s\<in>set (tails name). APP_DIR_RE_at s = None)"
  by (induction name) (auto split: option.splits)

lemma search_SomeD:
  "APP_DIR_RE_search name = Some r \<Longrightarrow> \<exists>s\<in>set (tails name). APP_DIR_RE_at s = Some r"
  by (induction name) (auto split: option.splits)

lemma search_matches: "APP_DIR_RE_search name \<noteq> None \<longleftrightarrow> ends_in_app_id (chomp name)"
  unfolding search_None_iff ends_chomp [symmetric] using APP_DIR_RE_at_shape by blast

lemma APP_DIR_RE_at_SomeD:
  assumes "APP_DIR_RE_at s = Some (cid, num)"
  shows "\<exists>rest. s = ''application_'' @ cid @ ''_'' @ num @ rest \<and> (rest = [] \<or> rest = [newline]) \<and>
           length cid = 13 \<and> list_all is_digit cid \<and> num \<noteq> [] \<and> list_all is_digit num"
proof -
  let ?rest = "dropWhile is_digit (drop 26 s)"
  have ne: "APP_DIR_RE_at s \<noteq> None" using assms by simp
  then have c: "take 12 s = ''application_''" "length (take 13 (drop 12 s)) = 13"
    "list_all is_digit (take 13 (drop 12 s))" "take 1 (drop 25 s) = ''_''"
    "takeWhile is_digit (drop 26 s) \<noteq> []" "?rest = [] \<or> ?rest = [newline]"
    unfolding APP_DIR_RE_at_cond by blast+
  have "APP_DIR_RE_at s = Some (take 13 (drop 12 s), takeWhile is_digit (drop 26 s))"
    using ne unfolding APP_DIR_RE_at_def Let_def by (meson option.distinct(1))
  then have v: "cid = take 13 (drop 12 s)" "num = takeWhile is_digit (drop 26 s)"
    using assms by simp_all
  have a1: "take 12 s @ drop 12 s = s" by (rule append_take_drop_id)
  have a2: "take 13 (drop 12 s) @ drop 25 s = drop 12 s"
    using append_take_drop_id [of 13 "drop 12 s"] by simp
  have a3: "take 1 (drop 25 s) @ drop 26 s = drop 25 s"
    using append_take_drop_id [of 1 "drop 25 s"] by simp
  have a4: "takeWhile is_digit (drop 26 s) @ ?rest = drop 26 s" by simp
  have "take 12 s @ take 13 (drop 12 s) @ take 1 (drop 25 s) @
          takeWhile is_digit (drop 26 s) @ ?rest = s"
    by (simp only: a4 a3 a2 a1)
  then have "s = ''application_'' @ cid @ ''_'' @ num @ ?rest"
    unfolding c(1) c(4) v [symmetric] by (rule sym)
  moreover have "list_all is_digit num" unfolding v
    by (simp add: list_all_iff) (meson set_takeWhileD)
  ultimately show ?thesis using c v by blast
qed

lemma scan_app_times_Inr:
  assumes "scan_app_times name children = Inr (cid, app_id, num, st, en)"
  shows "APP_DIR_RE_search name = Some (cid, num) \<and> app_id = ''application_'' @ cid @ ''_'' @ num"
  using assms
  by (auto simp: scan_app_times_def split: option.splits sum.splits prod.splits)

lemma parse_ts_error: "parse_ts ts = Inl e \<Longrightarrow> e = TimeDataError"
  by (auto simp: parse_ts_def strptime_def replace_year_def Let_def
      split: sum.splits option.splits prod.splits if_splits)

lemma scan_line_error: "scan_line se line = Inl e \<Longrightarrow> e = TimeDataError"
  by (auto simp: scan_line_def split: prod.splits option.splits sum.splits dest: parse_ts_error)

lemma scan_lines_error: "scan_lines se ls = Inl e \<Longrightarrow> e = TimeDataError"
  by (induction ls arbitrary: se) (auto split: sum.splits dest: scan_line_error)

lemma scan_files_errors:
  "scan_files se logs = Inl e \<Longrightarrow> e = OSError \<or> e = TimeDataError"
  by (induction se logs rule: scan_files.induct) (auto split: sum.splits dest: scan_lines_error)

lemma example_at:
  "APP_DIR_RE_at ''application_1234567890123_000001'' = Some (''1234567890123'', ''000001'')"
  by (simp add: APP_DIR_RE_at_def is_digit_def)

lemma example_search:
  "APP_DIR_RE_search ''application_1234567890123_000001'' = Some (''1234567890123'', ''000001'')"
  by (simp add: example_at)

lemma example_scan: "scan_app_times ''application_1234567890123_000001'' [] =
     Inr (''1234567890123'', ''application_1234567890123_000001'', ''000001'', None, None)"
  unfolding scan_app_times_def example_search by simp

lemma chomp_plain: "\<not> ends_with_newline name \<Longrightarrow> chomp name = name"
  by (auto simp: chomp_def ends_with_newline_def)

text \<open>
  C6, as the code has it, for a directory name that does not end in a newline.
  \<^verbatim>\<open>scan_app_times\<close> raises the invalid-name error exactly when the name does
  not end in \<^verbatim>\<open>application_\<close>, thirteen digits, an underscore and digits. On a
  name that does, the result is that of reading the log files: their error if one
  cannot be opened or holds a timestamp that is no date, and otherwise the two
  components with the time range. Whatever is returned has the thirteen digits as
  cluster id and the digits after the underscore, to the end of the name, as
  application number. The directory \<^verbatim>\<open>application_1234567890123_000001\<close> gives
  \<^verbatim>\<open>1234567890123\<close> and \<^verbatim>\<open>000001\<close>.
\<close>

theorem scan_app_times_identifier:
  assumes nl: "\<not> ends_with_newline name"
  shows "(scan_app_times name children = Inl (InvalidAppDirName name) \<longleftrightarrow>
      \<not> ends_in_app_id name) \<and>
   (ends_in_app_id name \<longrightarrow>
      (\<exists>cid num. scan_app_times name children =
         (case scan_files (None, None) (filter (\<lambda>(child, f). endswith child ''.log'') children) of
            Inl e \<Rightarrow> Inl e
          | Inr (st, en) \<Rightarrow> Inr (cid, ''application_'' @ cid @ ''_'' @ num, num, st, en)))) \<and>
   (\<forall>cid app_id num st en.
      scan_app_times name children = Inr (cid, app_id, num, st, en) \<longrightarrow>
        (\<exists>pre. name = pre @ ''application_'' @ cid @ ''_'' @ num \<and>
           length cid = 13 \<and> list_all is_digit cid \<and>
           num \<noteq> [] \<and> list_all is_digit num \<and>
           app_id = ''application_'' @ cid @ ''_'' @ num)) \<and>
   scan_app_times ''application_1234567890123_000001'' [] =
     Inr (''1234567890123'', ''application_1234567890123_000001'', ''000001'', None, None)"
proof (intro conjI allI impI)
  let ?logs = "filter (\<lambda>(child, f). endswith child ''.log'') children"
  have m: "APP_DIR_RE_search name \<noteq> None \<longleftrightarrow> ends_in_app_id name"
    using search_matches [of name] chomp_plain [OF nl] by simp
  show "scan_app_times name children = Inl (InvalidAppDirName name) \<longleftrightarrow>
      \<not> ends_in_app_id name"
  proof (cases "APP_DIR_RE_search name")
    case None
    then show ?thesis using m by (simp add: scan_app_times_def)
  next
    case (Some r)
    obtain cid num where r: "r = (cid, num)" by (cases r)
    have "scan_app_times name children \<noteq> Inl (InvalidAppDirName name)"
    proof (cases "scan_files (None, None) ?logs")
      case (Inl e)
      then have "e = OSError \<or> e = TimeDataError" by (rule scan_files_errors)
      then show ?thesis using Some r Inl by (auto simp: scan_app_times_def)
    next
      case (Inr se)
      then show ?thesis using Some r by (simp add: scan_app_times_def split: prod.splits)
    qed
    then show ?thesis using Some m by simp
  qed
  {
    assume "ends_in_app_id name"
    then obtain cid num where "APP_DIR_RE_search name = Some (cid, num)"
      using m by (cases "APP_DIR_RE_search name") auto
    then show "\<exists>cid num. scan_app_times name children =
         (case scan_files (None, None) ?logs of
            Inl e \<Rightarrow> Inl e
          | Inr (st, en) \<Rightarrow> Inr (cid, ''application_'' @ cid @ ''_'' @ num, num, st, en))"
      by (intro exI [of _ cid] exI [of _ num]) (simp add: scan_app_times_def)
  }
  {
    fix cid app_id num st en
    assume a: "scan_app_times name children = Inr (cid, app_id, num, st, en)"
    from scan_app_times_Inr [OF a] have s: "APP_DIR_RE_search name = Some (cid, num)"
      and i: "app_id = ''application_'' @ cid @ ''_'' @ num" by blast+
    from search_SomeD [OF s] obtain t where t0: "t \<in> set (tails name)"
      and t2: "APP_DIR_RE_at t = Some (cid, num)" by blast
    from t0 obtain pre where t1: "name = pre @ t" using tails_iff [of t name] by blast
    from APP_DIR_RE_at_SomeD [OF t2] obtain rest where
      t: "t = ''application_'' @ cid @ ''_'' @ num @ rest" and rest: "rest = [] \<or> rest = [newline]"
      and c: "length cid = 13" "list_all is_digit cid" "num \<noteq> []" "list_all is_digit num" by blast
    have "rest = []"
    proof (rule ccontr)
      assume "rest \<noteq> []"
      then have r: "rest = [newline]" using rest by blast
      have "name = (pre @ ''application_'' @ cid @ ''_'' @ num) @ [newline]"
        unfolding t1 t r by simp
      then have "ends_with_newline name" unfolding ends_with_newline_def by simp
      then show False using nl by blast
    qed
    then have "name = pre @ ''application_'' @ cid @ ''_'' @ num" unfolding t1 t by simp
    then show "\<exists>pre. name = pre @ ''application_'' @ cid @ ''_'' @ num \<and>
           length cid = 13 \<and> list_all is_digit cid \<and>
           num \<noteq> [] \<and> list_all is_digit num \<and>
           app_id = ''application_'' @ cid @ ''_'' @ num"
      using c i by blast
  }
  show "scan_app_times ''application_1234567890123_000001'' [] =
     Inr (''1234567890123'', ''application_1234567890123_000001'', ''000001'', None, None)"
    by (rule example_scan)
qed

theorem scan_app_times_identifier_witness:
  "ends_in_app_id ''application_1234567890123_000001'' \<and>
   scan_app_times ''application_1234567890123_000001'' [] =
     Inr (''1234567890123'', ''application_1234567890123_000001'', ''000001'', None, None) \<and>
   \<not> ends_in_app_id ''application_12_1'' \<and>
   scan_app_times ''application_12_1'' [] = Inl (InvalidAppDirName ''application_12_1'')"
proof -
  have n1: "\<not> ends_with_newline ''application_1234567890123_000001''"
    by (simp add: ends_with_newline_def newline_def)
  have n2: "\<not> ends_with_newline ''application_12_1''"
    by (simp add: ends_with_newline_def newline_def)
  have a: "ends_in_app_id ''application_1234567890123_000001''"
    by (simp add: ends_in_app_id_def app_id_shape_def is_digit_def)
  have b: "\<not> ends_in_app_id ''application_12_1''"
    by (simp add: ends_in_app_id_def app_id_shape_def is_digit_def)
  show ?thesis
    using scan_app_times_identifier [OF n1, of "[]"]
      scan_app_times_identifier [OF n2, of "[]"] a b
    by blast
qed

text \<open>
  As the specification words it, the property fails: a name of the right shape
  does not give its components when a log line carries a timestamp that is no
  date, or when a log file does not open.
\<close>

lemma bad_stamp_line:
  "scan_line (None, None) ''17/13/01 00:00:00 INFO x'' = Inl TimeDataError"
  by (simp add: scan_line_def TS_RE_match_def is_digit_def is_space_def parse_ts_def
      strptime_def digit_val_def days_in_month_def)

lemma unreadable_log:
  "scan_app_times ''application_1234567890123_000001'' [(''container.log'', Unreadable)] =
     Inl OSError"
  unfolding scan_app_times_def example_search by (simp add: endswith_def)

theorem scan_app_times_identifier_counterexample:
  "ends_in_app_id ''application_1234567890123_000001'' \<and>
   scan_app_times ''application_1234567890123_000001''
     [(''container.log'', Readable [''17/13/01 00:00:00 INFO x''])] = Inl TimeDataError \<and>
   scan_app_times ''application_1234567890123_000001'' [(''container.log'', Unreadable)] =
     Inl OSError"
proof (intro conjI)
  show "ends_in_app_id ''application_1234567890123_000001''"
    by (simp add: ends_in_app_id_def app_id_shape_def is_digit_def)
  show "scan_app_times ''application_1234567890123_000001''
     [(''container.log'', Readable [''17/13/01 00:00:00 INFO x''])] = Inl TimeDataError"
    unfolding scan_app_times_def example_search
    by (simp add: endswith_def bad_stamp_line)
  show "scan_app_times ''application_1234567890123_000001'' [(''container.log'', Unreadable)] =
     Inl OSError"
    by (rule unreadable_log)
qed

section \<open>Properties of the walk over the files\<close>

lemma iter_readable:
  "list_all (\<lambda>pf. is_readable (snd pf)) files \<Longrightarrow>
     iter_log_lines files = (concat (map lines_of files), None)"
proof (induction files)
  case Nil
  then show ?case by simp
next
  case (Cons pf files)
  obtain p f where pf: "pf = (p, f)" by (cases pf)
  from Cons.prems pf obtain ls where f: "f = Readable ls" by (cases f) simp_all
  show ?case using Cons pf f by simp
qed

lemma iter_append_readable:
  "list_all (\<lambda>pf. is_readable (snd pf)) pre \<Longrightarrow>
     iter_log_lines (pre @ rest) =
       (concat (map lines_of pre) @ fst (iter_log_lines rest), snd (iter_log_lines rest))"
proof (induction pre)
  case Nil
  then show ?case by simp
next
  case (Cons pf pre)
  obtain p f where pf: "pf = (p, f)" by (cases pf)
  from Cons.prems pf obtain ls where f: "f = Readable ls" by (cases f) simp_all
  show ?case using Cons pf f by (simp add: case_prod_beta)
qed

lemma scan_files_append:
  "scan_files se (pre @ rest) =
     (case scan_files se pre of Inl e \<Rightarrow> Inl e | Inr se' \<Rightarrow> scan_files se' rest)"
  by (induction se pre rule: scan_files.induct) (simp_all split: sum.splits)

text \<open>
  C8, as the code has it. Nothing catches the exception of \<^verbatim>\<open>open\<close>: when
  every matched file opens, the walk yields the lines of all of them, in order;
  when one does not, the walk has yielded the lines of the files before it and ends
  there with \<open>OSError\<close>, so the files after it are not read (in
  \<^verbatim>\<open>scan_app_times\<close> the scan of the directory fails in the same way). Bytes
  that do not decode are dropped by \<^verbatim>\<open>errors="ignore"\<close>, which is part of what
  a file that opens gives. \<^verbatim>\<open>ensure_extracted\<close> fails only with
  \<open>FileNotFoundError\<close>, exactly when there is neither an application entry nor an
  archive.
\<close>

theorem unreadable_file_ends_walk:
  "(list_all (\<lambda>pf. is_readable (snd pf)) files \<longrightarrow>
      iter_log_lines files = (concat (map lines_of files), None)) \<and>
   (list_all (\<lambda>pf. is_readable (snd pf)) pre \<longrightarrow>
      iter_log_lines (pre @ (log_path, Unreadable) # rest) =
        (concat (map lines_of pre), Some OSError) \<and>
      scan_files se (pre @ (log_path, Unreadable) # rest) =
        (case scan_files se pre of Inl e \<Rightarrow> Inl e | Inr se' \<Rightarrow> Inl OSError)) \<and>
   (ensure_extracted f = Inl e \<longrightarrow>
      e = FileNotFoundError \<and> glob_app (raw f) = [] \<and> archive f = None) \<and>
   (glob_app (raw f) = [] \<and> archive f = None \<longrightarrow> ensure_extracted f = Inl FileNotFoundError)"
proof (intro conjI impI)
  show "list_all (\<lambda>pf. is_readable (snd pf)) files \<Longrightarrow>
      iter_log_lines files = (concat (map lines_of files), None)"
    by (rule iter_readable)
  show "list_all (\<lambda>pf. is_readable (snd pf)) pre \<Longrightarrow>
      iter_log_lines (pre @ (log_path, Unreadable) # rest) =
        (concat (map lines_of pre), Some OSError)"
    by (simp add: iter_append_readable)
  show "scan_files se (pre @ (log_path, Unreadable) # rest) =
        (case scan_files se pre of Inl e \<Rightarrow> Inl e | Inr se' \<Rightarrow> Inl OSError)"
    by (simp add: scan_files_append split: sum.splits)
  show "ensure_extracted f = Inl e \<Longrightarrow> e = FileNotFoundError"
    by (auto simp: ensure_extracted_def split: if_splits option.splits)
  show "ensure_extracted f = Inl e \<Longrightarrow> glob_app (raw f) = []"
    by (auto simp: ensure_extracted_def split: if_splits option.splits)
  show "ensure_extracted f = Inl e \<Longrightarrow> archive f = None"
    by (auto simp: ensure_extracted_def split: if_splits option.splits)
  show "glob_app (raw f) = [] \<and> archive f = None \<Longrightarrow> ensure_extracted f = Inl FileNotFoundError"
    by (simp add: ensure_extracted_def)
qed

theorem unreadable_file_ends_walk_witness:
  "iter_log_lines [(''a.log'', Readable [''x'']), (''b.log'', Readable [''y''])] =
     ([(''a.log'', ''x''), (''b.log'', ''y'')], None) \<and>
   iter_log_lines ([(''a.log'', Readable [''x''])] @ (''b.log'', Unreadable) # [(''c.log'', Readable [''z''])]) =
     ([(''a.log'', ''x'')], Some OSError) \<and>
   scan_files (None, None) ([(''a.log'', Readable [''x''])] @ (''b.log'', Unreadable) # []) = Inl OSError \<and>
   ensure_extracted \<lparr>raw = [], archive = None\<rparr> = Inl FileNotFoundError"
proof -
  have r1: "list_all (\<lambda>pf. is_readable (snd pf))
      [(''a.log'', Readable [''x'']), (''b.log'', Readable [''y''])]" by simp
  have r2: "list_all (\<lambda>pf. is_readable (snd pf)) [(''a.log'', Readable [''x''])]" by simp
  have g: "glob_app (raw \<lparr>raw = [], archive = None\<rparr>) = [] \<and>
     archive \<lparr>raw = [], archive = None\<rparr> = None" by (simp add: glob_app_def)
  have l: "rstrip_nl ''x'' = ''x''" "rstrip_nl ''y'' = ''y''"
    by (simp_all add: rstrip_nl_def newline_def)
  have s: "scan_files (None, None) [(''a.log'', Readable [''x''])] = Inr (None, None)"
    by (simp add: scan_line_def TS_RE_match_def)
  from unreadable_file_ends_walk
         [of "[(''a.log'', Readable [''x'']), (''b.log'', Readable [''y''])]"
             "[(''a.log'', Readable [''x''])]" "''b.log''" "[(''c.log'', Readable [''z''])]"
             "(None, None)" "\<lparr>raw = [], archive = None\<rparr>"]
       unreadable_file_ends_walk
         [of "[]" "[(''a.log'', Readable [''x''])]" "''b.log''" "[]"
             "(None, None)" "\<lparr>raw = [], archive = None\<rparr>"]
       r1 r2 g l s
  show ?thesis by simp
qed

text \<open>
  As the specification words it, the property fails: with an unreadable file between two readable
  ones, the lines of the last file are never yielded.
\<close>

theorem unreadable_file_counterexample:
  "iter_log_lines [(''a.log'', Readable [''x'']), (''b.log'', Unreadable),
                   (''c.log'', Readable [''z''])] = ([(''a.log'', ''x'')], Some OSError) \<and>
   (''c.log'', ''z'') \<notin> set (fst (iter_log_lines [(''a.log'', Readable [''x'']),
                   (''b.log'', Unreadable), (''c.log'', Readable [''z''])]))"
  by (simp add: rstrip_nl_def newline_def)

section \<open>Properties of the two tables of problem2.py\<close>

lemma scan_line_range:
  assumes "range_ok se" "scan_line se line = Inr se'"
  shows "range_ok se'"
proof (cases "TS_RE_match line")
  case None
  then show ?thesis using assms by (simp add: scan_line_def split: prod.splits)
next
  case (Some ts)
  show ?thesis
  proof (cases "parse_ts ts")
    case (Inl e)
    then show ?thesis using assms Some by (simp add: scan_line_def split: prod.splits)
  next
    case (Inr dt)
    obtain st en where se: "se = (st, en)" by (cases se)
    show ?thesis
    proof (cases st)
      case None
      then have "en = None" using assms(1) se by (cases en) simp_all
      then show ?thesis using assms(2) Some Inr se None by (auto simp: scan_line_def)
    next
      case (Some a)
      then obtain b where b: "en = Some b" using assms(1) se by (cases en) simp_all
      have ab: "a \<le> b" using assms(1) se Some b by simp
      have "se' = (if dt < a then Some dt else Some a, if dt > b then Some dt else Some b)"
        using assms(2) \<open>TS_RE_match line = Some ts\<close> Inr se Some b
        by (simp add: scan_line_def)
      then show ?thesis using ab by auto
    qed
  qed
qed

lemma scan_lines_range:
  "range_ok se \<Longrightarrow> scan_lines se ls = Inr se' \<Longrightarrow> range_ok se'"
proof (induction ls arbitrary: se)
  case Nil
  then show ?case by simp
next
  case (Cons l ls)
  then show ?case
    by (cases "scan_line se l") (auto dest: scan_line_range)
qed

lemma scan_files_range:
  "range_ok se \<Longrightarrow> scan_files se logs = Inr se' \<Longrightarrow> range_ok se'"
proof (induction se logs rule: scan_files.induct)
  case (1 se)
  then show ?case by simp
next
  case (2 se log_path rest)
  then show ?case by simp
next
  case (3 se log_path ls rest)
  then show ?case
    by (cases "scan_lines se ls") (auto dest: scan_lines_range)
qed

lemma scan_app_times_range:
  assumes "scan_app_times name children = Inr (cid, app_id, num, Some st, Some en)"
  shows "st \<le> en"
proof -
  let ?logs = "filter (\<lambda>(child, f). endswith child ''.log'') children"
  from assms have "scan_files (None, None) ?logs = Inr (Some st, Some en)"
    by (auto simp: scan_app_times_def split: option.splits sum.splits prod.splits)
  then have "range_ok (Some st, Some en)"
    using scan_files_range [of "(None, None)" ?logs "(Some st, Some en)"] by simp
  then show ?thesis by simp
qed

lemma counter_incr_get:
  "counter_get (counter_incr c key) k = (if k = key then counter_get c key + 1 else counter_get c k)"
  by (simp add: counter_get_def counter_incr_def update_conv')

lemma counter_incr_keys:
  "fst ` set (counter_incr c key) = insert key (fst ` set c)"
  by (simp add: counter_incr_def dom_update)

lemma counter_get_nonneg:
  "(\<forall>k\<in>fst ` set c. 1 \<le> counter_get c k) \<Longrightarrow> 0 \<le> counter_get c key"
proof (cases "map_of c key")
  case None
  then show ?thesis by (simp add: counter_get_def)
next
  case (Some v)
  assume a: "\<forall>k\<in>fst ` set c. 1 \<le> counter_get c k"
  from Some have "key \<in> fst ` set c" by (metis map_of_eq_None_iff option.distinct(1))
  then have "1 \<le> counter_get c key" using a by blast
  then show ?thesis by simp
qed

lemma app_step_inv:
  assumes inv: "scan_inv s" and step: "app_step s app_dir = Inr s'"
  shows "scan_inv s'"
proof -
  obtain name children where ad: "app_dir = (name, children)" by (cases app_dir)
  from step ad obtain cid app_id num so eo where
    sc: "scan_app_times name children = Inr (cid, app_id, num, so, eo)"
    by (cases "scan_app_times name children") (auto simp: app_step_def)
  show ?thesis
  proof (cases "\<exists>st en. so = Some st \<and> eo = Some en")
    case False
    then have "s' = s" using step ad sc
      by (cases so; cases eo) (auto simp: app_step_def)
    then show ?thesis using inv by simp
  next
    case True
    then obtain st en where so: "so = Some st" and eo: "eo = Some en" by blast
    have le: "st \<le> en" using sc so eo scan_app_times_range by blast
    have cc: "cluster_counts s' = counter_incr (cluster_counts s) cid"
      and cf: "cluster_first s' =
         (case cluster_first s cid of
            None \<Rightarrow> (cluster_first s)(cid \<mapsto> st)
          | Some f \<Rightarrow> if st < f then (cluster_first s)(cid \<mapsto> st) else cluster_first s)"
      and cl: "cluster_last s' =
         (case cluster_last s cid of
            None \<Rightarrow> (cluster_last s)(cid \<mapsto> en)
          | Some l \<Rightarrow> if en > l then (cluster_last s)(cid \<mapsto> en) else cluster_last s)"
      using step ad sc so eo by (auto simp: app_step_def)
    have nonneg: "0 \<le> counter_get (cluster_counts s) cid"
    proof (rule counter_get_nonneg)
      show "\<forall>k\<in>fst ` set (cluster_counts s). 1 \<le> counter_get (cluster_counts s) k"
        using inv unfolding scan_inv_def by blast
    qed
    define f' where "f' = (case cluster_first s cid of None \<Rightarrow> st
                            | Some f \<Rightarrow> if st < f then st else f)"
    define l' where "l' = (case cluster_last s cid of None \<Rightarrow> en
                            | Some l \<Rightarrow> if en > l then en else l)"
    have F: "cluster_first s' cid = Some f'"
      by (simp add: cf f'_def split: option.splits)
    have L: "cluster_last s' cid = Some l'"
      by (simp add: cl l'_def split: option.splits)
    have "f' \<le> st"
    proof (cases "cluster_first s cid")
      case None
      then show ?thesis by (simp add: f'_def)
    next
      case (Some f0)
      then show ?thesis by (cases "st < f0") (simp_all add: f'_def not_less)
    qed
    moreover have "en \<le> l'"
    proof (cases "cluster_last s cid")
      case None
      then show ?thesis by (simp add: l'_def)
    next
      case (Some l0)
      then show ?thesis by (cases "en > l0") (simp_all add: l'_def not_less)
    qed
    ultimately have fl: "f' \<le> l'" using le by (meson order_trans)
    show ?thesis
      unfolding scan_inv_def
    proof
      fix k assume "k \<in> fst ` set (cluster_counts s')"
      then have k: "k = cid \<or> k \<in> fst ` set (cluster_counts s)"
        by (simp add: cc counter_incr_keys)
      show "1 \<le> counter_get (cluster_counts s') k \<and>
         (\<exists>f l. cluster_first s' k = Some f \<and> cluster_last s' k = Some l \<and> f \<le> l)"
      proof (cases "k = cid")
        case False
        then have old: "k \<in> fst ` set (cluster_counts s)" using k by blast
        have e1: "cluster_first s' k = cluster_first s k"
          using False by (simp add: cf split: option.splits)
        have e2: "cluster_last s' k = cluster_last s k"
          using False by (simp add: cl split: option.splits)
        have e3: "counter_get (cluster_counts s') k = counter_get (cluster_counts s) k"
          using False by (simp add: cc counter_incr_get)
        from inv old have "1 \<le> counter_get (cluster_counts s) k \<and>
           (\<exists>f l. cluster_first s k = Some f \<and> cluster_last s k = Some l \<and> f \<le> l)"
          unfolding scan_inv_def by blast
        then show ?thesis unfolding e1 e2 e3 .
      next
        case True
        have c1: "1 \<le> counter_get (cluster_counts s') cid"
          using nonneg by (simp add: cc counter_incr_get)
        from F L fl have "\<exists>f l. cluster_first s' cid = Some f \<and> cluster_last s' cid = Some l \<and> f \<le> l"
          by blast
        then show ?thesis using c1 unfolding True by blast
      qed
    qed
  qed
qed

lemma scan_inv_init: "scan_inv scan_init"
  by (simp add: scan_inv_def scan_init_def)

lemma app_loop_inv:
  "scan_inv s \<Longrightarrow> app_loop s dirs = Inr s' \<Longrightarrow> scan_inv s'"
proof (induction dirs arbitrary: s)
  case Nil
  then show ?case by simp
next
  case (Cons d dirs)
  show ?case
  proof (cases "app_step s d")
    case (Inl e)
    then show ?thesis using Cons.prems(2) by simp
  next
    case (Inr s1)
    then have "scan_inv s1" using Cons.prems(1) app_step_inv by blast
    moreover have "app_loop s1 dirs = Inr s'" using Cons.prems(2) Inr by simp
    ultimately show ?thesis by (rule Cons.IH)
  qed
qed

lemma cluster_summary_rows_ok:
  assumes inv: "scan_inv s"
  shows "set cids \<subseteq> fst ` set (cluster_counts s) \<Longrightarrow> cluster_summary_rows s cids = Inr rows \<Longrightarrow>
    row \<in> set rows \<Longrightarrow> 1 \<le> fst (snd row) \<and> fst (snd (snd row)) \<le> snd (snd (snd row))"
proof (induction cids arbitrary: rows)
  case Nil
  then show ?case by simp
next
  case (Cons cid cids)
  from Cons.prems(1) have in_c: "cid \<in> fst ` set (cluster_counts s)"
    and sub: "set cids \<subseteq> fst ` set (cluster_counts s)" by simp_all
  from inv in_c obtain f l where fl: "cluster_first s cid = Some f" "cluster_last s cid = Some l"
    "f \<le> l" and c1: "1 \<le> counter_get (cluster_counts s) cid"
    unfolding scan_inv_def by blast
  from Cons.prems(2) fl obtain rest where rest: "cluster_summary_rows s cids = Inr rest"
    and rows: "rows = (cid, counter_get (cluster_counts s) cid, f, l) # rest"
    by (cases "cluster_summary_rows s cids") simp_all
  from Cons.prems(3) rows have "row = (cid, counter_get (cluster_counts s) cid, f, l) \<or> row \<in> set rest"
    by simp
  then show ?case
  proof
    assume "row = (cid, counter_get (cluster_counts s) cid, f, l)"
    then show ?thesis using fl(3) c1 by simp
  next
    assume "row \<in> set rest"
    with Cons.IH [OF sub rest] show ?thesis .
  qed
qed

lemma sorted_by_int_set: "sorted_by_int keys = Inr cids \<Longrightarrow> set cids = set keys"
  by (auto simp: sorted_by_int_def split: option.splits)

lemma main_problem2_Inr:
  assumes "main_problem2 f = Inr (timeline, rows)"
  shows "\<exists>f' s cids. ensure_extracted f = Inr f' \<and>
           app_loop scan_init (iter_app_dirs (raw f')) = Inr s \<and>
           sorted_by_int (map fst (cluster_counts s)) = Inr cids \<and>
           cluster_summary_rows s cids = Inr rows \<and> timeline = timeline_rows s"
  using assms
  by (auto simp: main_problem2_def split: sum.splits)

text \<open>
  C10. Every row of the cluster summary has \<open>num_applications \<ge> 1\<close> and
  \<open>cluster_first_app \<le> cluster_last_app\<close>: a cluster gets its count, its first
  and its last instant from applications with a time range, each with its start
  not after its end, and the first is at most each start and the last at least
  each end.
\<close>

theorem cluster_rows_wellformed:
  assumes "main_problem2 f = Inr (timeline, rows)"
  shows "\<forall>(cid, num_applications, cluster_first_app, cluster_last_app)\<in>set rows.
           1 \<le> num_applications \<and> cluster_first_app \<le> cluster_last_app"
proof -
  from main_problem2_Inr [OF assms] obtain f' :: fs and s cids where
    run: "app_loop scan_init (iter_app_dirs (raw f')) = Inr s"
    and keys: "sorted_by_int (map fst (cluster_counts s)) = Inr cids"
    and rows: "cluster_summary_rows s cids = Inr rows" by blast
  have inv: "scan_inv s" using scan_inv_init run by (rule app_loop_inv)
  have sub: "set cids \<subseteq> fst ` set (cluster_counts s)"
    using sorted_by_int_set [OF keys] by simp
  have "\<And>row. row \<in> set rows \<Longrightarrow>
      1 \<le> fst (snd row) \<and> fst (snd (snd row)) \<le> snd (snd (snd row))"
    using cluster_summary_rows_ok [OF inv sub rows] by blast
  then show ?thesis by (simp add: case_prod_beta)
qed

lemma demo_order: "''application_1111111111111_10'' \<le> ''application_1111111111111_9''"
  by (simp add: less_char_def)

lemma demo_order2: "\<not> ''application_1111111111111_9'' \<le> ''application_1111111111111_10''"
  by (simp add: less_char_def)

lemma demo_glob: "glob_app (raw demo_corpus) = raw demo_corpus"
  by (simp add: demo_corpus_def glob_app_def startswith_def)

lemma demo_dirs:
  "iter_app_dirs (raw demo_corpus) =
     [(''application_1111111111111_10'', [(''c.log'', Readable [''17/03/30 08:00:00 INFO c''])]),
      (''application_1111111111111_9'',
         [(''c.log'', Readable [''17/03/29 10:04:41 INFO a'', ''17/03/29 10:05:00 INFO b''])])]"
  unfolding iter_app_dirs_def demo_glob
  by (simp add: demo_corpus_def demo_order demo_order2)

lemma demo_line1: "scan_line (None, None) ''17/03/30 08:00:00 INFO c'' =
    Inr (Some (2017, 3, 30, 8, 0, 0), Some (2017, 3, 30, 8, 0, 0))"
  by (simp add: scan_line_def TS_RE_match_def is_digit_def is_space_def parse_ts_def
      strptime_def digit_val_def days_in_month_def year_def)

lemma demo_line2: "scan_line (None, None) ''17/03/29 10:04:41 INFO a'' =
    Inr (Some (2017, 3, 29, 10, 4, 41), Some (2017, 3, 29, 10, 4, 41))"
  by (simp add: scan_line_def TS_RE_match_def is_digit_def is_space_def parse_ts_def
      strptime_def digit_val_def days_in_month_def year_def)

lemma demo_line3:
  "scan_line (Some (2017, 3, 29, 10, 4, 41), Some (2017, 3, 29, 10, 4, 41))
     ''17/03/29 10:05:00 INFO b'' =
    Inr (Some (2017, 3, 29, 10, 4, 41), Some (2017, 3, 29, 10, 5, 0))"
  by (simp add: scan_line_def TS_RE_match_def is_digit_def is_space_def parse_ts_def
      strptime_def digit_val_def days_in_month_def year_def)

lemma demo_at10: "APP_DIR_RE_at ''application_1111111111111_10'' = Some (''1111111111111'', ''10'')"
  by (simp add: APP_DIR_RE_at_def is_digit_def)

lemma demo_at9: "APP_DIR_RE_at ''application_1111111111111_9'' = Some (''1111111111111'', ''9'')"
  by (simp add: APP_DIR_RE_at_def is_digit_def)

lemma demo_search10: "APP_DIR_RE_search ''application_1111111111111_10'' = Some (''1111111111111'', ''10'')"
  by (simp add: demo_at10)

lemma demo_search9: "APP_DIR_RE_search ''application_1111111111111_9'' = Some (''1111111111111'', ''9'')"
  by (simp add: demo_at9)

lemma demo_scan10:
  "scan_app_times ''application_1111111111111_10''
     [(''c.log'', Readable [''17/03/30 08:00:00 INFO c''])] =
   Inr (''1111111111111'', ''application_1111111111111_10'', ''10'',
        Some (2017, 3, 30, 8, 0, 0), Some (2017, 3, 30, 8, 0, 0))"
  unfolding scan_app_times_def demo_search10
  by (simp add: endswith_def demo_line1)

lemma demo_scan9:
  "scan_app_times ''application_1111111111111_9''
     [(''c.log'', Readable [''17/03/29 10:04:41 INFO a'', ''17/03/29 10:05:00 INFO b''])] =
   Inr (''1111111111111'', ''application_1111111111111_9'', ''9'',
        Some (2017, 3, 29, 10, 4, 41), Some (2017, 3, 29, 10, 5, 0))"
  unfolding scan_app_times_def demo_search9
  by (simp add: endswith_def demo_line2 demo_line3)

lemma demo_loop:
  "app_loop scan_init (iter_app_dirs (raw demo_corpus)) =
     Inr \<lparr>timeline_rows =
            [(''1111111111111'', ''application_1111111111111_10'', ''10'',
              (2017, 3, 30, 8, 0, 0), (2017, 3, 30, 8, 0, 0)),
             (''1111111111111'', ''application_1111111111111_9'', ''9'',
              (2017, 3, 29, 10, 4, 41), (2017, 3, 29, 10, 5, 0))],
          cluster_counts = [(''1111111111111'', 2)],
          cluster_first = [''1111111111111'' \<mapsto> (2017, 3, 29, 10, 4, 41)],
          cluster_last = [''1111111111111'' \<mapsto> (2017, 3, 30, 8, 0, 0)]\<rparr>"
  unfolding demo_dirs
  by (simp add: app_step_def demo_scan10 demo_scan9 scan_init_def counter_incr_def
      counter_get_def)

lemma demo_main:
  "main_problem2 demo_corpus =
     Inr ([(''1111111111111'', ''application_1111111111111_10'', ''10'',
              (2017, 3, 30, 8, 0, 0), (2017, 3, 30, 8, 0, 0)),
           (''1111111111111'', ''application_1111111111111_9'', ''9'',
              (2017, 3, 29, 10, 4, 41), (2017, 3, 29, 10, 5, 0))],
          [(''1111111111111'', 2, (2017, 3, 29, 10, 4, 41), (2017, 3, 30, 8, 0, 0))])"
proof -
  have e: "ensure_extracted demo_corpus = Inr demo_corpus"
    unfolding ensure_extracted_def demo_glob by (simp add: demo_corpus_def)
  show ?thesis
    unfolding main_problem2_def e
    by (simp add: demo_loop sorted_by_int_def is_decimal_def is_digit_def counter_get_def)
qed

lemma foldl_digits:
  "foldl (\<lambda>a c. 10 * a + digit_val c) a cs =
     a * 10 ^ length cs + foldl (\<lambda>a c. 10 * a + digit_val c) 0 cs"
proof (induction cs arbitrary: a)
  case Nil
  then show ?case by simp
next
  case (Cons c cs)
  have "foldl (\<lambda>a c. 10 * a + digit_val c) (10 * a + digit_val c) cs =
        (10 * a + digit_val c) * 10 ^ length cs + foldl (\<lambda>a c. 10 * a + digit_val c) 0 cs"
    by (rule Cons.IH)
  moreover have "foldl (\<lambda>a c. 10 * a + digit_val c) (digit_val c) cs =
        digit_val c * 10 ^ length cs + foldl (\<lambda>a c. 10 * a + digit_val c) 0 cs"
    by (rule Cons.IH)
  ultimately show ?case by (simp add: algebra_simps)
qed

lemma int_digits_Cons:
  "int_digits (c # cs) = digit_val c * 10 ^ length cs + int_digits cs"
  unfolding int_digits_def using foldl_digits [of "digit_val c" cs] by simp

lemma int_digits_Nil: "int_digits [] = 0"
  by (simp add: int_digits_def)

lemma int_digits_bounds:
  "list_all is_digit cs \<Longrightarrow> 0 \<le> int_digits cs \<and> int_digits cs < 10 ^ length cs"
proof (induction cs)
  case Nil
  then show ?case by (simp add: int_digits_Nil)
next
  case (Cons c cs)
  then have d: "0 \<le> digit_val c" "digit_val c \<le> 9" and
    r: "0 \<le> int_digits cs" "int_digits cs < 10 ^ length cs"
    using digit_val_range [of c] by simp_all
  let ?p = "(10::int) ^ length cs"
  have a: "digit_val c * ?p \<le> 9 * ?p"
    using d(2) by (intro mult_right_mono) simp_all
  have b: "0 \<le> digit_val c * ?p" using d(1) by simp
  have e: "int_digits (c # cs) = digit_val c * ?p + int_digits cs" by (rule int_digits_Cons)
  have f: "(10::int) ^ length (c # cs) = 10 * ?p" by simp
  show ?case unfolding e f using a b r by linarith
qed

lemma digit_val_less: "a < b \<Longrightarrow> digit_val a < digit_val b"
  by (simp add: less_char_def digit_val_def)

lemma int_digits_strict_mono:
  "length x = length y \<Longrightarrow> list_all is_digit x \<Longrightarrow> list_all is_digit y \<Longrightarrow> x < y \<Longrightarrow>
     int_digits x < int_digits y"
proof (induction x y rule: list_induct2)
  case Nil
  then show ?case by simp
next
  case (Cons a x b y)
  let ?p = "(10::int) ^ length y"
  have len: "length x = length y" using Cons.hyps by simp
  have rx: "0 \<le> int_digits x" "int_digits x < ?p"
    using int_digits_bounds [of x] Cons.prems(1) len by simp_all
  have ry: "0 \<le> int_digits y" "int_digits y < ?p"
    using int_digits_bounds [of y] Cons.prems(2) by simp_all
  from Cons.prems(3) have "a < b \<or> a = b \<and> x < y" by simp
  then show ?case
  proof
    assume "a < b"
    then have "digit_val a + 1 \<le> digit_val b" using digit_val_less [of a b] by simp
    then have "(digit_val a + 1) * ?p \<le> digit_val b * ?p"
      by (intro mult_right_mono) simp_all
    then have "digit_val a * ?p + ?p \<le> digit_val b * ?p" by (simp add: algebra_simps)
    then have "digit_val a * ?p + int_digits x < digit_val b * ?p + int_digits y"
      using rx ry by linarith
    then show ?thesis by (simp add: int_digits_Cons len)
  next
    assume "a = b \<and> x < y"
    then have "a = b" "int_digits x < int_digits y"
      using Cons.IH Cons.prems(1,2) by simp_all
    then show ?thesis by (simp add: int_digits_Cons len)
  qed
qed

lemma int_digits_mono:
  assumes "length x = length y" "list_all is_digit x" "list_all is_digit y" "x \<le> y"
  shows "int_digits x \<le> int_digits y"
proof (cases "x = y")
  case True
  then show ?thesis by simp
next
  case False
  then have "x < y" using assms(4) by simp
  then show ?thesis using int_digits_strict_mono [OF assms(1-3)] by simp
qed

lemma append_le_append:
  "length x1 = length y1 \<Longrightarrow>
     (x1 @ x2 \<le> y1 @ y2) = (x1 < y1 \<or> (x1 = y1 \<and> x2 \<le> y2))"
  by (induction x1 y1 rule: list_induct2) auto

lemma plain_decomp:
  assumes "plain_app_name w n"
  shows "n = ''application_'' @ take 13 (drop 12 n) @ ''_'' @ drop 26 n"
    and "length (take 13 (drop 12 n)) = 13" and "list_all is_digit (take 13 (drop 12 n))"
    and "length (drop 26 n) = w" and "list_all is_digit (drop 26 n)" and "drop 26 n \<noteq> []"
proof -
  from assms have c: "take 12 n = ''application_''" "length (take 13 (drop 12 n)) = 13"
    "list_all is_digit (take 13 (drop 12 n))" "take 1 (drop 25 n) = ''_''"
    "drop 26 n \<noteq> []" "list_all is_digit (drop 26 n)" and len: "length n = 26 + w"
    unfolding plain_app_name_def app_id_shape_def by blast+
  have a1: "take 12 n @ drop 12 n = n" by (rule append_take_drop_id)
  have a2: "take 13 (drop 12 n) @ drop 25 n = drop 12 n"
    using append_take_drop_id [of 13 "drop 12 n"] by simp
  have a3: "take 1 (drop 25 n) @ drop 26 n = drop 25 n"
    using append_take_drop_id [of 1 "drop 25 n"] by simp
  have "take 12 n @ take 13 (drop 12 n) @ take 1 (drop 25 n) @ drop 26 n = n"
    by (simp only: a3 a2 a1)
  then show "n = ''application_'' @ take 13 (drop 12 n) @ ''_'' @ drop 26 n"
    unfolding c(1) c(4) by (rule sym)
  show "length (take 13 (drop 12 n)) = 13" by (rule c(2))
  show "list_all is_digit (take 13 (drop 12 n))" by (rule c(3))
  show "length (drop 26 n) = w" using len by simp
  show "list_all is_digit (drop 26 n)" by (rule c(6))
  show "drop 26 n \<noteq> []" by (rule c(5))
qed

lemma name_key_mono:
  assumes p1: "plain_app_name w n1" and p2: "plain_app_name w n2" and le: "n1 \<le> n2"
  shows "name_key n1 \<le> name_key n2"
proof -
  let ?c1 = "take 13 (drop 12 n1)" and ?c2 = "take 13 (drop 12 n2)"
  let ?m1 = "drop 26 n1" and ?m2 = "drop 26 n2"
  note d1 = plain_decomp [OF p1] and d2 = plain_decomp [OF p2]
  have "''application_'' @ (?c1 @ ''_'' @ ?m1) \<le> ''application_'' @ (?c2 @ ''_'' @ ?m2)"
    using le d1(1) d2(1) by simp
  then have "?c1 @ (''_'' @ ?m1) \<le> ?c2 @ (''_'' @ ?m2)"
    using append_le_append [of "''application_''" "''application_''"] by simp
  then have "?c1 < ?c2 \<or> (?c1 = ?c2 \<and> ''_'' @ ?m1 \<le> ''_'' @ ?m2)"
    using append_le_append [of ?c1 ?c2 "''_'' @ ?m1" "''_'' @ ?m2"] d1(2) d2(2) by simp
  then have "?c1 < ?c2 \<or> (?c1 = ?c2 \<and> ?m1 \<le> ?m2)"
    using append_le_append [of "''_''" "''_''" ?m1 ?m2] by simp
  then show ?thesis
  proof
    assume "?c1 < ?c2"
    then have "int_digits ?c1 < int_digits ?c2"
      using int_digits_strict_mono [of ?c1 ?c2] d1(2,3) d2(2,3) by simp
    then show ?thesis by (simp add: name_key_def)
  next
    assume a: "?c1 = ?c2 \<and> ?m1 \<le> ?m2"
    then have "int_digits ?m1 \<le> int_digits ?m2"
      using int_digits_mono [of ?m1 ?m2] d1(4,5) d2(4,5) by simp
    then show ?thesis using a by (simp add: name_key_def)
  qed
qed

lemma plain_search:
  assumes "plain_app_name w n"
  shows "APP_DIR_RE_search n = Some (take 13 (drop 12 n), drop 26 n)"
proof -
  note d = plain_decomp [OF assms]
  have c: "take 12 n = ''application_''" "take 1 (drop 25 n) = ''_''"
    using assms unfolding plain_app_name_def app_id_shape_def by blast+
  have tw: "takeWhile is_digit (drop 26 n) = drop 26 n"
    using d(5) by (simp add: list_all_iff)
  have dw: "dropWhile is_digit (drop 26 n) = []"
    using d(5) by (simp add: list_all_iff)
  have at: "APP_DIR_RE_at n = Some (take 13 (drop 12 n), drop 26 n)"
    unfolding APP_DIR_RE_at_def Let_def tw dw using c d(2,3,6) by simp
  have "n \<noteq> []" using d(6) by auto
  then obtain x xs where "n = x # xs" by (cases n) simp_all
  then show ?thesis using at by simp
qed

lemma timeline_row_key:
  assumes "plain_app_name w name" and "timeline_row (name, children) = Some row"
  shows "timeline_key row = name_key name"
proof -
  from assms(2) obtain cid app_id num st en where
    sc: "scan_app_times name children = Inr (cid, app_id, num, Some st, Some en)"
    and row: "row = (cid, app_id, num, st, en)"
    by (auto simp: timeline_row_def split: sum.splits prod.splits option.splits)
  from scan_app_times_Inr [OF sc] have "APP_DIR_RE_search name = Some (cid, num)" by blast
  then have "cid = take 13 (drop 12 name)" "num = drop 26 name"
    using plain_search [OF assms(1)] by simp_all
  then show ?thesis using row by (simp add: name_key_def)
qed

lemma app_step_timeline:
  assumes "app_step s d = Inr s'"
  shows "timeline_rows s' = timeline_rows s @ List.map_filter timeline_row [d]"
proof -
  obtain name children where d: "d = (name, children)" by (cases d)
  from assms d obtain cid app_id num so eo where
    sc: "scan_app_times name children = Inr (cid, app_id, num, so, eo)"
    by (cases "scan_app_times name children") (auto simp: app_step_def)
  show ?thesis
    using assms d sc
    by (cases so; cases eo) (auto simp: app_step_def timeline_row_def)
qed

lemma app_loop_timeline:
  "app_loop s dirs = Inr s' \<Longrightarrow>
     timeline_rows s' = timeline_rows s @ List.map_filter timeline_row dirs"
proof (induction dirs arbitrary: s)
  case Nil
  then show ?case by simp
next
  case (Cons d dirs)
  from Cons.prems obtain s1 where s1: "app_step s d = Inr s1" "app_loop s1 dirs = Inr s'"
    by (cases "app_step s d") simp_all
  have "timeline_rows s' = timeline_rows s1 @ List.map_filter timeline_row dirs"
    using s1(2) by (rule Cons.IH)
  moreover have "timeline_rows s1 = timeline_rows s @ List.map_filter timeline_row [d]"
    using s1(1) by (rule app_step_timeline)
  ultimately show ?case by (simp split: option.splits)
qed

lemma iter_app_dirs_names:
  "map fst (concat (map (\<lambda>(name, n). (case n of File f \<Rightarrow> [] | Dir children \<Rightarrow> [(name, children)])) xs))
     = map fst (filter is_dir xs)"
proof (induction xs)
  case Nil
  then show ?case by simp
next
  case (Cons x xs)
  obtain name n where x: "x = (name, n)" by (cases x)
  show ?case using Cons x by (cases n) simp_all
qed

lemma iter_app_dirs_sorted: "sorted (map fst (iter_app_dirs entries))"
proof -
  have "sorted (map fst (sort_key fst (glob_app entries)))" by (rule sorted_sort_key)
  then have "sorted (map fst (filter is_dir (sort_key fst (glob_app entries))))"
    by (rule sorted_filter)
  then show ?thesis unfolding iter_app_dirs_def iter_app_dirs_names .
qed

lemma sorted_keys_of_plain:
  assumes "sorted (map fst dirs)" and "\<forall>d\<in>set dirs. plain_app_name w (fst d)"
  shows "sorted (map timeline_key (List.map_filter timeline_row dirs))"
  using assms
proof (induction dirs)
  case Nil
  then show ?case by simp
next
  case (Cons d dirs)
  have tl: "sorted (map timeline_key (List.map_filter timeline_row dirs))"
    using Cons by simp
  show ?case
  proof (cases "timeline_row d")
    case None
    then show ?thesis using tl by simp
  next
    case (Some row)
    obtain name children where d: "d = (name, children)" by (cases d)
    have pd: "plain_app_name w name" using Cons.prems(2) d by simp
    have k: "timeline_key row = name_key name"
      using timeline_row_key [OF pd] Some d by simp
    have "\<forall>r\<in>set (List.map_filter timeline_row dirs). timeline_key row \<le> timeline_key r"
    proof
      fix r assume "r \<in> set (List.map_filter timeline_row dirs)"
      then obtain e where e: "e \<in> set dirs" "timeline_row e = Some r"
        by (auto simp: map_filter_def)
      obtain n2 c2 where e2: "e = (n2, c2)" by (cases e)
      have p2: "plain_app_name w n2" using Cons.prems(2) e(1) e2 by auto
      have "name \<le> n2" using Cons.prems(1) e(1) d e2 by auto
      then have "name_key name \<le> name_key n2" using name_key_mono [OF pd p2] by simp
      moreover have "timeline_key r = name_key n2"
        using timeline_row_key [OF p2] e(2) e2 by simp
      ultimately show "timeline_key row \<le> timeline_key r" using k by simp
    qed
    then show ?thesis using tl Some by simp
  qed
qed

lemma cluster_summary_rows_keys:
  "cluster_summary_rows s cids = Inr rows \<Longrightarrow> map fst rows = cids"
proof (induction cids arbitrary: rows)
  case Nil
  then show ?case by simp
next
  case (Cons cid cids)
  then show ?case
    by (auto split: option.splits sum.splits)
qed

lemma sorted_by_int_sorted:
  "sorted_by_int keys = Inr cids \<Longrightarrow> sorted (map int_digits cids)"
  by (auto simp: sorted_by_int_def split: option.splits)

text \<open>
  C7, as the code has it. The rows of the cluster summary are in ascending numeric
  order of \<open>cluster_id\<close>. The rows of the timeline are those of the application
  directories in the ascending order of their names as strings
  (\<^verbatim>\<open>sorted\<close> on the paths); this is the ascending numeric order of cluster id
  and application number when every directory is named by the identifier alone,
  with application numbers of one common width.
\<close>

theorem tables_order:
  assumes ex: "ensure_extracted f = Inr f'"
    and run: "main_problem2 f = Inr (timeline, rows)"
  shows "sorted (map int_digits (map fst rows)) \<and>
         sorted (map fst (iter_app_dirs (raw f'))) \<and>
         timeline = List.map_filter timeline_row (iter_app_dirs (raw f')) \<and>
         ((\<forall>d\<in>set (iter_app_dirs (raw f')). plain_app_name w (fst d)) \<longrightarrow>
            sorted (map timeline_key timeline))"
proof -
  from main_problem2_Inr [OF run] ex obtain s cids where
    loop: "app_loop scan_init (iter_app_dirs (raw f')) = Inr s"
    and keys: "sorted_by_int (map fst (cluster_counts s)) = Inr cids"
    and rows: "cluster_summary_rows s cids = Inr rows"
    and tl: "timeline = timeline_rows s" by auto
  have a: "sorted (map int_digits (map fst rows))"
    using sorted_by_int_sorted [OF keys] cluster_summary_rows_keys [OF rows] by simp
  have b: "sorted (map fst (iter_app_dirs (raw f')))" by (rule iter_app_dirs_sorted)
  have c: "timeline = List.map_filter timeline_row (iter_app_dirs (raw f'))"
    using app_loop_timeline [OF loop] tl by (simp add: scan_init_def)
  have d: "(\<forall>d\<in>set (iter_app_dirs (raw f')). plain_app_name w (fst d)) \<longrightarrow>
            sorted (map timeline_key timeline)"
    unfolding c using sorted_keys_of_plain [OF b] by blast
  from a b c d show ?thesis by blast
qed

lemma padded_glob: "glob_app (raw demo_padded) = raw demo_padded"
  by (simp add: demo_padded_def glob_app_def startswith_def)

lemma padded_order: "''application_1111111111111_0009'' \<le> ''application_1111111111111_0010''"
  by (simp add: less_char_def)

lemma padded_dirs:
  "iter_app_dirs (raw demo_padded) =
     [(''application_1111111111111_0009'', [(''c.log'', Readable [''17/03/29 10:04:41 INFO a''])]),
      (''application_1111111111111_0010'', [(''c.log'', Readable [''17/03/30 08:00:00 INFO c''])])]"
  unfolding iter_app_dirs_def padded_glob
  by (simp add: demo_padded_def padded_order)

lemma padded_at9:
  "APP_DIR_RE_at ''application_1111111111111_0009'' = Some (''1111111111111'', ''0009'')"
  by (simp add: APP_DIR_RE_at_def is_digit_def)

lemma padded_at10:
  "APP_DIR_RE_at ''application_1111111111111_0010'' = Some (''1111111111111'', ''0010'')"
  by (simp add: APP_DIR_RE_at_def is_digit_def)

lemma padded_search9:
  "APP_DIR_RE_search ''application_1111111111111_0009'' = Some (''1111111111111'', ''0009'')"
  by (simp add: padded_at9)

lemma padded_search10:
  "APP_DIR_RE_search ''application_1111111111111_0010'' = Some (''1111111111111'', ''0010'')"
  by (simp add: padded_at10)

lemma padded_scan9:
  "scan_app_times ''application_1111111111111_0009''
     [(''c.log'', Readable [''17/03/29 10:04:41 INFO a''])] =
   Inr (''1111111111111'', ''application_1111111111111_0009'', ''0009'',
        Some (2017, 3, 29, 10, 4, 41), Some (2017, 3, 29, 10, 4, 41))"
  unfolding scan_app_times_def padded_search9
  by (simp add: endswith_def demo_line2)

lemma padded_scan10:
  "scan_app_times ''application_1111111111111_0010''
     [(''c.log'', Readable [''17/03/30 08:00:00 INFO c''])] =
   Inr (''1111111111111'', ''application_1111111111111_0010'', ''0010'',
        Some (2017, 3, 30, 8, 0, 0), Some (2017, 3, 30, 8, 0, 0))"
  unfolding scan_app_times_def padded_search10
  by (simp add: endswith_def demo_line1)

lemma padded_loop:
  "app_loop scan_init (iter_app_dirs (raw demo_padded)) =
     Inr \<lparr>timeline_rows =
            [(''1111111111111'', ''application_1111111111111_0009'', ''0009'',
              (2017, 3, 29, 10, 4, 41), (2017, 3, 29, 10, 4, 41)),
             (''1111111111111'', ''application_1111111111111_0010'', ''0010'',
              (2017, 3, 30, 8, 0, 0), (2017, 3, 30, 8, 0, 0))],
          cluster_counts = [(''1111111111111'', 2)],
          cluster_first = [''1111111111111'' \<mapsto> (2017, 3, 29, 10, 4, 41)],
          cluster_last = [''1111111111111'' \<mapsto> (2017, 3, 30, 8, 0, 0)]\<rparr>"
  unfolding padded_dirs
  by (simp add: app_step_def padded_scan10 padded_scan9 scan_init_def counter_incr_def
      counter_get_def)

lemma padded_extracted: "ensure_extracted demo_padded = Inr demo_padded"
  unfolding ensure_extracted_def padded_glob by (simp add: demo_padded_def)

lemma padded_main:
  "main_problem2 demo_padded =
     Inr ([(''1111111111111'', ''application_1111111111111_0009'', ''0009'',
              (2017, 3, 29, 10, 4, 41), (2017, 3, 29, 10, 4, 41)),
           (''1111111111111'', ''application_1111111111111_0010'', ''0010'',
              (2017, 3, 30, 8, 0, 0), (2017, 3, 30, 8, 0, 0))],
          [(''1111111111111'', 2, (2017, 3, 29, 10, 4, 41), (2017, 3, 30, 8, 0, 0))])"
  unfolding main_problem2_def padded_extracted
  by (simp add: padded_loop sorted_by_int_def is_decimal_def is_digit_def counter_get_def)

lemma padded_plain:
  "\<forall>d\<in>set (iter_app_dirs (raw demo_padded)). plain_app_name 4 (fst d)"
  unfolding padded_dirs
  by (simp add: plain_app_name_def app_id_shape_def is_digit_def)

theorem tables_order_witness:
  "main_problem2 demo_padded =
     Inr ([(''1111111111111'', ''application_1111111111111_0009'', ''0009'',
              (2017, 3, 29, 10, 4, 41), (2017, 3, 29, 10, 4, 41)),
           (''1111111111111'', ''application_1111111111111_0010'', ''0010'',
              (2017, 3, 30, 8, 0, 0), (2017, 3, 30, 8, 0, 0))],
          [(''1111111111111'', 2, (2017, 3, 29, 10, 4, 41), (2017, 3, 30, 8, 0, 0))]) \<and>
   sorted (map timeline_key
     [(''1111111111111'', ''application_1111111111111_0009'', ''0009'',
              (2017, 3, 29, 10, 4, 41), (2017, 3, 29, 10, 4, 41)),
      (''1111111111111'', ''application_1111111111111_0010'', ''0010'',
              (2017, 3, 30, 8, 0, 0), (2017, 3, 30, 8, 0, 0))]) \<and>
   sorted (map int_digits (map fst
     [(''1111111111111'', 2::int, (2017, 3, 29, 10, 4, 41)::datetime, (2017, 3, 30, 8, 0, 0)::datetime)]))"
  using tables_order [OF padded_extracted padded_main, of 4] padded_plain padded_main
  by blast

text \<open>
  As the specification words it, the property fails for the timeline: application 10 is listed
  before application 9 of the same cluster.
\<close>

theorem tables_order_counterexample:
  "main_problem2 demo_corpus =
     Inr ([(''1111111111111'', ''application_1111111111111_10'', ''10'',
              (2017, 3, 30, 8, 0, 0), (2017, 3, 30, 8, 0, 0)),
           (''1111111111111'', ''application_1111111111111_9'', ''9'',
              (2017, 3, 29, 10, 4, 41), (2017, 3, 29, 10, 5, 0))],
          [(''1111111111111'', 2, (2017, 3, 29, 10, 4, 41), (2017, 3, 30, 8, 0, 0))]) \<and>
   \<not> sorted (map timeline_key
     [(''1111111111111'', ''application_1111111111111_10'', ''10'',
              (2017, 3, 30, 8, 0, 0), (2017, 3, 30, 8, 0, 0)),
      (''1111111111111'', ''application_1111111111111_9'', ''9'',
              (2017, 3, 29, 10, 4, 41), (2017, 3, 29, 10, 5, 0))])"
proof -
  have "int_digits ''10'' = 10" "int_digits ''9'' = 9"
    by (simp_all add: int_digits_def digit_val_def)
  then show ?thesis using demo_main by simp
qed

theorem cluster_rows_wellformed_witness:
  "main_problem2 demo_corpus =
     Inr ([(''1111111111111'', ''application_1111111111111_10'', ''10'',
              (2017, 3, 30, 8, 0, 0), (2017, 3, 30, 8, 0, 0)),
           (''1111111111111'', ''application_1111111111111_9'', ''9'',
              (2017, 3, 29, 10, 4, 41), (2017, 3, 29, 10, 5, 0))],
          [(''1111111111111'', 2, (2017, 3, 29, 10, 4, 41), (2017, 3, 30, 8, 0, 0))]) \<and>
   (1::int) \<le> 2 \<and> ((2017, 3, 29, 10, 4, 41)::datetime) \<le> (2017, 3, 30, 8, 0, 0)"
  using cluster_rows_wellformed [OF demo_main] demo_main by simp

end
